theory Spec2Isabelle
  imports Main "HOL-Library.AList"
begin

section \<open>Values, exceptions and the network\<close>

text \<open>
  The repository is one Python module, \<^verbatim>\<open>website_to_graph.py\<close>: a recursive crawler that
  fills a \<^verbatim>\<open>networkx.DiGraph\<close>, and a JSON serializer for that graph.  The libraries it
  calls (\<^verbatim>\<open>requests\<close>, \<^verbatim>\<open>BeautifulSoup\<close>, \<^verbatim>\<open>urllib.parse.urljoin\<close>,
  \<^verbatim>\<open>networkx\<close>, \<^verbatim>\<open>json\<close>) are not part of the repository; the model of each is
  given below and says what it keeps of the library.

  \<open>json\<close> is the type of the Python values that \<^verbatim>\<open>json.load\<close> returns and
  \<^verbatim>\<open>json.dump\<close> accepts: \<^verbatim>\<open>None\<close>, booleans, integers, strings, lists and
  string-keyed dicts (an association list in insertion order).  Graph nodes and the
  \<^verbatim>\<open>text_content\<close> attribute are values of this type.  Floating point numbers are left
  out, and so is Python's identification of \<^verbatim>\<open>True\<close> with \<^verbatim>\<open>1\<close> as dictionary keys.
\<close>

datatype json =
    JNull
  | JBool bool
  | JNum int
  | JStr string
  | JArr "json list"
  | JObj "(string \<times> json) list"

type_synonym url = string

text \<open>The exceptions the module can raise or catch.\<close>

datatype exn =
    ConnectionError
  | HTTPError nat
  | KeyError string
  | TypeError
  | ValueError
  | FileNotFoundError
  | JSONDecodeError
  | UnicodeDecodeError

text \<open>
  A parsed HTML document, as far as the module reads it: the \<^verbatim>\<open>href\<close> of every
  \<^verbatim>\<open><a href=...>\<close> in document order (\<^verbatim>\<open>soup.find_all("a", href=True)\<close>) and the text
  of every \<^verbatim>\<open><p>\<close> in document order (\<^verbatim>\<open>soup.find_all("p")\<close>).
\<close>

record page =
  hrefs :: "string list"
  p_tags :: "string list"

text \<open>
  What one call of \<^verbatim>\<open>requests.get\<close> does: it raises (no response), or it returns a
  response with a status code and a body.  The network is a function of the URLs
  requested so far and the URL requested now, so a server may answer the same URL
  differently each time.
\<close>

datatype fetch_outcome = NoResponse | Response nat page

type_synonym fetcher = "url list \<Rightarrow> url \<Rightarrow> fetch_outcome"

section \<open>The graph store (networkx.DiGraph)\<close>

text \<open>
  \<open>node_dict\<close> is networkx's \<^verbatim>\<open>G._node\<close>: each node with its attribute dict, in
  insertion order.  The only node attribute the module reads or writes is
  \<^verbatim>\<open>text_content\<close>, so an attribute dict is \<open>None\<close> (no such key) or \<open>Some v\<close>.
  \<open>edge_dict\<close> is \<^verbatim>\<open>G._adj\<close> flattened to one dict keyed by (source, target); the only
  edge attribute is \<^verbatim>\<open>weight\<close>, \<open>None\<close> when the edge has no such key.
\<close>

record digraph =
  node_dict :: "(json \<times> json option) list"
  edge_dict :: "((json \<times> json) \<times> int option) list"

definition DiGraph :: digraph where
  "DiGraph = \<lparr>node_dict = [], edge_dict = []\<rparr>"

definition has_node :: "digraph \<Rightarrow> json \<Rightarrow> bool" where
  "has_node G n = (map_of (node_dict G) n \<noteq> None)"

definition has_edge :: "digraph \<Rightarrow> json \<Rightarrow> json \<Rightarrow> bool" where
  "has_edge G u v = (map_of (edge_dict G) (u, v) \<noteq> None)"

text \<open>
  What networkx does with a value offered as a node: a list or a dict is unhashable
  (\<^verbatim>\<open>TypeError\<close> on the first dictionary lookup), and \<^verbatim>\<open>None\<close> is refused with
  \<^verbatim>\<open>ValueError("None cannot be a node")\<close> when it would be added.
\<close>

fun unhashable :: "json \<Rightarrow> bool" where
  "unhashable (JArr xs) = True"
| "unhashable (JObj kvs) = True"
| "unhashable v = False"

text \<open>\<^verbatim>\<open>G.add_node(n, text_content=t)\<close>: a new node is appended; on an existing node the attribute is overwritten.\<close>

definition add_node :: "digraph \<Rightarrow> json \<Rightarrow> json \<Rightarrow> exn + digraph" where
  "add_node G n t =
     (if unhashable n then Inl TypeError
      else if \<not> has_node G n \<and> n = JNull then Inl ValueError
      else Inr (G\<lparr>node_dict := AList.update n (Some t) (node_dict G)\<rparr>))"

text \<open>The first half of \<^verbatim>\<open>G.add_edge(u, v, ...)\<close>, once for each endpoint: an endpoint that is not a node yet becomes one, with an empty attribute dict.\<close>

definition ensure_node :: "digraph \<Rightarrow> json \<Rightarrow> exn + digraph" where
  "ensure_node G n =
     (if unhashable n then Inl TypeError
      else if has_node G n then Inr G
      else if n = JNull then Inl ValueError
      else Inr (G\<lparr>node_dict := node_dict G @ [(n, None)]\<rparr>))"

text \<open>
  \<^verbatim>\<open>G.add_edge(u, v, **attr)\<close>: both endpoints are made nodes, then the edge's attribute
  dict (the existing one, or a new empty one) is updated with \<open>attr\<close>.  \<open>attr\<close> is
  \<open>Some w\<close> for \<^verbatim>\<open>weight=w\<close> and \<open>None\<close> for a call without keyword arguments.
\<close>

definition add_edge :: "digraph \<Rightarrow> json \<Rightarrow> json \<Rightarrow> int option \<Rightarrow> exn + digraph" where
  "add_edge G u v attr =
     (case ensure_node G u of
        Inl e \<Rightarrow> Inl e
      | Inr G1 \<Rightarrow>
          (case ensure_node G1 v of
             Inl e \<Rightarrow> Inl e
           | Inr G2 \<Rightarrow>
               (let datadict = (case map_of (edge_dict G2) (u, v) of Some d \<Rightarrow> d | None \<Rightarrow> None);
                    datadict' = (case attr of Some w \<Rightarrow> Some w | None \<Rightarrow> datadict)
                in Inr (G2\<lparr>edge_dict := AList.update (u, v) datadict' (edge_dict G2)\<rparr>))))"

section \<open>The crawler\<close>

text \<open>
  \<^verbatim>\<open>add_weighted_edge\<close> (lines 12-16).  \<^verbatim>\<open>graph[source][target]["weight"] += 1\<close> raises
  \<^verbatim>\<open>KeyError\<close> when the edge has no \<^verbatim>\<open>weight\<close> key.
\<close>

definition add_weighted_edge :: "digraph \<Rightarrow> json \<Rightarrow> json \<Rightarrow> exn + digraph" where
  "add_weighted_edge graph source target =
     (if has_edge graph source target then
        (case map_of (edge_dict graph) (source, target) of
           Some (Some w) \<Rightarrow>
             Inr (graph\<lparr>edge_dict := AList.update (source, target) (Some (w + 1)) (edge_dict graph)\<rparr>)
         | _ \<Rightarrow> Inl (KeyError ''weight''))
      else add_edge graph source target (Some 1))"

text \<open>
  The state a crawl threads through its calls: the graph it mutates in place, and three
  logs that the program does not keep but the claims speak about: the URL of every call
  of \<^verbatim>\<open>website_to_graph\<close> so far, the URL of every \<^verbatim>\<open>requests.get\<close> so far, and the URL
  of every text extraction so far (\<^verbatim>\<open>soup.get_text\<close> on line 44 and the loop over the
  \<^verbatim>\<open><p>\<close> tags in \<^verbatim>\<open>get_main_text\<close>).
\<close>

record crawl_state =
  visited :: "url list"
  requested :: "url list"
  extracted :: "url list"
  website_graph :: digraph

text \<open>
  \<^verbatim>\<open>response = requests.get(url); response.raise_for_status()\<close>: the request is logged,
  and a status from 400 to 599 raises \<^verbatim>\<open>HTTPError\<close>.  Both exceptions are
  \<^verbatim>\<open>requests.exceptions.RequestException\<close>s.
\<close>

definition requests_get :: "fetcher \<Rightarrow> url \<Rightarrow> crawl_state \<Rightarrow> (exn + page) \<times> crawl_state" where
  "requests_get net u st =
     (let st' = st\<lparr>requested := requested st @ [u]\<rparr> in
      case net (requested st) u of
        NoResponse \<Rightarrow> (Inl ConnectionError, st')
      | Response status_code soup \<Rightarrow>
          if 400 \<le> status_code \<and> status_code < 600 then (Inl (HTTPError status_code), st')
          else (Inr soup, st'))"

text \<open>\<^verbatim>\<open>get_main_text\<close> (lines 71-83): a request of its own, outside any \<^verbatim>\<open>try\<close>, then the text of the \<^verbatim>\<open><p>\<close> tags, a newline after each.\<close>

definition get_main_text :: "fetcher \<Rightarrow> url \<Rightarrow> crawl_state \<Rightarrow> (exn + string) \<times> crawl_state" where
  "get_main_text net u st =
     (case requests_get net u st of
        (Inl e, st') \<Rightarrow> (Inl e, st')
      | (Inr soup, st') \<Rightarrow>
          (Inr (foldl (\<lambda>main_text p_tag. main_text @ p_tag @ [CHR 0x0A]) [] (p_tags soup)),
           st'\<lparr>extracted := extracted st' @ [u]\<rparr>))"

definition startswith :: "string \<Rightarrow> string \<Rightarrow> bool" where
  "startswith s prefix = (take (length prefix) s = prefix)"

text \<open>
  How a call of \<^verbatim>\<open>website_to_graph\<close> ends: it returns, it raises, or the model's bound on
  the recursion depth is reached; each with the state at that moment.
\<close>

datatype outcome = OutOfFuel crawl_state | Raised exn crawl_state | Returned crawl_state

text \<open>
  \<^verbatim>\<open>website_to_graph\<close> (lines 19-68) and its \<^verbatim>\<open>for link in ...\<close> loop (\<open>follow_links\<close>,
  lines 51-67).  The first argument bounds the depth of the recursion: Python recurses
  without a bound of its own choosing, so a crawl that never returns is \<open>OutOfFuel\<close>
  for every depth, with the state in which the call beyond the bound would have
  started.  (The interpreter's recursion limit, which ends a deep crawl with
  \<^verbatim>\<open>RecursionError\<close>, is not modelled.)  \<open>urljoin\<close> stands for \<^verbatim>\<open>urllib.parse.urljoin\<close>,
  which raises \<^verbatim>\<open>ValueError\<close> on some malformed hrefs; line 52 calls it for every link,
  before the test of line 55 and outside every \<^verbatim>\<open>try\<close>.  The loop reassigns \<^verbatim>\<open>new_url\<close>
  and leaves \<^verbatim>\<open>previous_url\<close> alone.  The text that line 44 extracts from the first
  response is never used; the extraction is logged.
\<close>

fun website_to_graph ::
    "nat \<Rightarrow> fetcher \<Rightarrow> (url \<Rightarrow> string \<Rightarrow> exn + url) \<Rightarrow> url \<Rightarrow> url \<Rightarrow> url \<Rightarrow> crawl_state \<Rightarrow> outcome"
  and follow_links ::
    "nat \<Rightarrow> fetcher \<Rightarrow> (url \<Rightarrow> string \<Rightarrow> exn + url) \<Rightarrow> url \<Rightarrow> url \<Rightarrow> string list \<Rightarrow> crawl_state \<Rightarrow> outcome"
where
  "website_to_graph 0 net urljoin root_url previous_url new_url st = OutOfFuel st"
| "website_to_graph (Suc depth) net urljoin root_url previous_url new_url st =
     (case requests_get net new_url (st\<lparr>visited := visited st @ [new_url]\<rparr>) of
        (Inl e, st1) \<Rightarrow> Returned st1
      | (Inr soup, st1) \<Rightarrow>
          (case get_main_text net new_url (st1\<lparr>extracted := extracted st1 @ [new_url]\<rparr>) of
             (Inl e, st2) \<Rightarrow> Raised e st2
           | (Inr main_text, st2) \<Rightarrow>
               (case add_node (website_graph st2) (JStr new_url) (JStr main_text) of
                  Inl e \<Rightarrow> Raised e st2
                | Inr G \<Rightarrow>
                    follow_links depth net urljoin root_url previous_url (hrefs soup)
                      (st2\<lparr>website_graph := G\<rparr>))))"
| "follow_links depth net urljoin root_url previous_url [] st = Returned st"
| "follow_links depth net urljoin root_url previous_url (href # links) st =
     (case urljoin root_url href of
        Inl e \<Rightarrow> Raised e st
      | Inr new_url \<Rightarrow>
          if startswith href ''/'' \<and> href \<noteq> ''/'' then
            (case (if \<not> has_node (website_graph st) (JStr new_url)
                   then website_to_graph depth net urljoin root_url new_url new_url st
                   else Returned st) of
               OutOfFuel st' \<Rightarrow> OutOfFuel st'
             | Raised e st' \<Rightarrow> Raised e st'
             | Returned st' \<Rightarrow>
                 (case add_weighted_edge (website_graph st') (JStr previous_url) (JStr new_url) of
                    Inl e \<Rightarrow> Raised e st'
                  | Inr G \<Rightarrow>
                      follow_links depth net urljoin root_url previous_url links
                        (st'\<lparr>website_graph := G\<rparr>)))
          else follow_links depth net urljoin root_url previous_url links st)"

section \<open>The serializer\<close>

text \<open>
  \<^verbatim>\<open>nx.node_link_data(G)\<close>: a dict with the keys \<^verbatim>\<open>directed\<close>, \<^verbatim>\<open>multigraph\<close>,
  \<^verbatim>\<open>graph\<close>, \<^verbatim>\<open>nodes\<close> and \<^verbatim>\<open>links\<close>.  A node is its attribute dict with the key
  \<^verbatim>\<open>id\<close> added, a link is the edge's attribute dict with \<^verbatim>\<open>source\<close> and \<^verbatim>\<open>target\<close>
  added.  The key of the edge list is \<^verbatim>\<open>links\<close>, the one \<^verbatim>\<open>json_to_graph\<close> reads.
  (networkx lists the links grouped by source node; here they stand in the order of
  \<open>edge_dict\<close>.)
\<close>

fun node_obj :: "json \<times> json option \<Rightarrow> json" where
  "node_obj (n, None) = JObj [(''id'', n)]"
| "node_obj (n, Some t) = JObj [(''text_content'', t), (''id'', n)]"

fun link_obj :: "(json \<times> json) \<times> int option \<Rightarrow> json" where
  "link_obj ((u, v), None) = JObj [(''source'', u), (''target'', v)]"
| "link_obj ((u, v), Some w) = JObj [(''weight'', JNum w), (''source'', u), (''target'', v)]"

definition node_link_data :: "digraph \<Rightarrow> json" where
  "node_link_data G =
     JObj [(''directed'', JBool True), (''multigraph'', JBool False), (''graph'', JObj []),
           (''nodes'', JArr (map node_obj (node_dict G))),
           (''links'', JArr (map link_obj (edge_dict G)))]"

text \<open>
  A file, as \<^verbatim>\<open>json.load\<close> sees it: bytes that are no text in the default encoding
  (reading them raises \<^verbatim>\<open>UnicodeDecodeError\<close>), text that is no JSON document, or the
  value the document denotes.  \<^verbatim>\<open>json.dump\<close> followed by \<^verbatim>\<open>json.load\<close> gives back every
  value of type \<open>json\<close>.  A file system maps a path to its file, if there is one.
\<close>

datatype file_content = Undecodable | NotJSON | Document json

type_synonym filesystem = "string \<rightharpoonup> file_content"

text \<open>\<^verbatim>\<open>graph_to_json\<close> (lines 86-97).\<close>

definition graph_to_json :: "digraph \<Rightarrow> string \<Rightarrow> filesystem \<Rightarrow> filesystem" where
  "graph_to_json G filepath fs = fs(filepath \<mapsto> Document (node_link_data G))"

text \<open>
  \<^verbatim>\<open>load_from_json\<close> (lines 100-118): \<^verbatim>\<open>FileNotFoundError\<close> and \<^verbatim>\<open>JSONDecodeError\<close> are
  caught, reported by \<^verbatim>\<open>print\<close>, and \<^verbatim>\<open>None\<close> is returned; any other exception is not
  caught.
\<close>

definition load_from_json :: "filesystem \<Rightarrow> string \<Rightarrow> exn + json" where
  "load_from_json fs filepath =
     (case fs filepath of
        None \<Rightarrow> Inr JNull
      | Some Undecodable \<Rightarrow> Inl UnicodeDecodeError
      | Some NotJSON \<Rightarrow> Inr JNull
      | Some (Document data) \<Rightarrow> Inr data)"

text \<open>\<^verbatim>\<open>x[key]\<close> with a string key: only a dict can be indexed by a string.\<close>

fun subscript :: "json \<Rightarrow> string \<Rightarrow> exn + json" where
  "subscript (JObj kvs) key = (case map_of kvs key of None \<Rightarrow> Inl (KeyError key) | Some v \<Rightarrow> Inr v)"
| "subscript x key = Inl TypeError"

text \<open>\<^verbatim>\<open>for x in v\<close>: a list gives its elements, a dict its keys, a string its characters; nothing else is iterable.\<close>

fun iterate :: "json \<Rightarrow> exn + json list" where
  "iterate (JArr xs) = Inr xs"
| "iterate (JObj kvs) = Inr (map (\<lambda>kv. JStr (fst kv)) kvs)"
| "iterate (JStr s) = Inr (map (\<lambda>c. JStr [c]) s)"
| "iterate x = Inl TypeError"

text \<open>
  The two loops of \<^verbatim>\<open>json_to_graph\<close> (lines 138-144 and 147-148).  In the first,
  \<^verbatim>\<open>node["text_content"]\<close> is read before \<^verbatim>\<open>node["id"]\<close>; \<^verbatim>\<open>node.get("attributes", {})\<close>
  is reached only for a dict and its result is not used.
\<close>

fun add_nodes_from_json :: "digraph \<Rightarrow> json list \<Rightarrow> exn + digraph" where
  "add_nodes_from_json G [] = Inr G"
| "add_nodes_from_json G (node # rest) =
     (case subscript node ''text_content'' of
        Inl e \<Rightarrow> Inl e
      | Inr page_main_text \<Rightarrow>
          (case subscript node ''id'' of
             Inl e \<Rightarrow> Inl e
           | Inr n \<Rightarrow>
               (case add_node G n page_main_text of
                  Inl e \<Rightarrow> Inl e
                | Inr G' \<Rightarrow> add_nodes_from_json G' rest)))"

fun add_edges_from_json :: "digraph \<Rightarrow> json list \<Rightarrow> exn + digraph" where
  "add_edges_from_json G [] = Inr G"
| "add_edges_from_json G (edge # rest) =
     (case subscript edge ''source'' of
        Inl e \<Rightarrow> Inl e
      | Inr u \<Rightarrow>
          (case subscript edge ''target'' of
             Inl e \<Rightarrow> Inl e
           | Inr v \<Rightarrow>
               (case add_edge G u v None of
                  Inl e \<Rightarrow> Inl e
                | Inr G' \<Rightarrow> add_edges_from_json G' rest)))"

text \<open>\<^verbatim>\<open>json_to_graph\<close> (lines 121-150): nothing is caught, so every exception reaches the caller.\<close>

definition json_to_graph :: "filesystem \<Rightarrow> string \<Rightarrow> exn + digraph" where
  "json_to_graph fs filepath =
     (case fs filepath of
        None \<Rightarrow> Inl FileNotFoundError
      | Some Undecodable \<Rightarrow> Inl UnicodeDecodeError
      | Some NotJSON \<Rightarrow> Inl JSONDecodeError
      | Some (Document data) \<Rightarrow>
          (case subscript data ''nodes'' of
             Inl e \<Rightarrow> Inl e
           | Inr ns \<Rightarrow>
               (case iterate ns of
                  Inl e \<Rightarrow> Inl e
                | Inr node_list \<Rightarrow>
                    (case add_nodes_from_json DiGraph node_list of
                       Inl e \<Rightarrow> Inl e
                     | Inr G \<Rightarrow>
                         (case subscript data ''links'' of
                            Inl e \<Rightarrow> Inl e
                          | Inr ls \<Rightarrow>
                              (case iterate ls of
                                 Inl e \<Rightarrow> Inl e
                               | Inr link_list \<Rightarrow> add_edges_from_json G link_list))))))"

section \<open>Observations and concrete inputs\<close>

text \<open>
  A link leaves a trace when the loop follows it (line 55) or \<open>urljoin\<close> raises on it
  (line 52).  \<open>strip_unfollowed\<close> is the network that serves every page without its
  other links.
\<close>

definition leaves_trace :: "(url \<Rightarrow> string \<Rightarrow> exn + url) \<Rightarrow> url \<Rightarrow> string \<Rightarrow> bool" where
  "leaves_trace uj root href = ((startswith href ''/'' \<and> href \<noteq> ''/'') \<or> isl (uj root href))"

definition strip_unfollowed :: "(url \<Rightarrow> string \<Rightarrow> exn + url) \<Rightarrow> url \<Rightarrow> fetcher \<Rightarrow> fetcher" where
  "strip_unfollowed uj root net log u =
     (case net log u of
        NoResponse \<Rightarrow> NoResponse
      | Response status_code soup \<Rightarrow>
          Response status_code (soup\<lparr>hrefs := filter (leaves_trace uj root) (hrefs soup)\<rparr>))"

text \<open>The state of a crawl that has done nothing yet, on an empty graph.\<close>

definition fresh_crawl :: crawl_state where
  "fresh_crawl = \<lparr>visited = [], requested = [], extracted = [], website_graph = DiGraph\<rparr>"

text \<open>
  What \<^verbatim>\<open>urllib.parse.urljoin\<close> does for a base without a path, such as
  \<^verbatim>\<open>http://s\<close>, and an href that is a path starting with one \<^verbatim>\<open>/\<close>, an absolute URL,
  or the malformed \<^verbatim>\<open>http://[\<close>, on which it raises \<^verbatim>\<open>ValueError\<close> (invalid IPv6 URL).
  It is used for the concrete crawls below only; the theorems hold for every \<open>urljoin\<close>.
\<close>

definition simple_urljoin :: "url \<Rightarrow> string \<Rightarrow> exn + url" where
  "simple_urljoin base href =
     (if href = ''http://['' then Inl ValueError
      else Inr (if startswith href ''/'' then base @ href else href))"

text \<open>
  The format of a saved graph: the document is an object whose \<^verbatim>\<open>nodes\<close> is a list of
  objects with a string \<^verbatim>\<open>id\<close> and a string \<^verbatim>\<open>text_content\<close>, and whose \<^verbatim>\<open>links\<close> is a
  list of objects with a string \<^verbatim>\<open>source\<close>, a string \<^verbatim>\<open>target\<close> and an integer
  \<^verbatim>\<open>weight\<close>.
\<close>

fun field :: "json \<Rightarrow> string \<Rightarrow> json option" where
  "field (JObj kvs) key = map_of kvs key"
| "field x key = None"

fun is_string :: "json \<Rightarrow> bool" where
  "is_string (JStr s) = True"
| "is_string x = False"

fun is_integer :: "json \<Rightarrow> bool" where
  "is_integer (JNum i) = True"
| "is_integer x = False"

definition format_node :: "json \<Rightarrow> bool" where
  "format_node x =
     (case (field x ''id'', field x ''text_content'') of
        (Some n, Some t) \<Rightarrow> is_string n \<and> is_string t
      | _ \<Rightarrow> False)"

definition format_link :: "json \<Rightarrow> bool" where
  "format_link x =
     (case (field x ''source'', field x ''target'', field x ''weight'') of
        (Some u, Some v, Some w) \<Rightarrow> is_string u \<and> is_string v \<and> is_integer w
      | _ \<Rightarrow> False)"

definition follows_format :: "json \<Rightarrow> bool" where
  "follows_format data =
     (case (field data ''nodes'', field data ''links'') of
        (Some (JArr ns), Some (JArr ls)) \<Rightarrow> list_all format_node ns \<and> list_all format_link ls
      | _ \<Rightarrow> False)"

text \<open>
  What \<^verbatim>\<open>json_to_graph\<close> asks of a document, which is less.  A node entry is an object
  with the keys \<^verbatim>\<open>text_content\<close> and \<^verbatim>\<open>id\<close> whose \<^verbatim>\<open>id\<close> can be a node: it is not null,
  not a list and not an object.  A link entry is an object with the keys \<^verbatim>\<open>source\<close> and
  \<^verbatim>\<open>target\<close>, both of which can be nodes.  A collection is a list, or an empty string or
  an empty object in the place of the empty list.  A document is \<open>accepted\<close> when it is
  an object whose \<^verbatim>\<open>nodes\<close> is a collection of node entries and whose \<^verbatim>\<open>links\<close> is a
  collection of link entries.  \<open>malformed_document_error\<close>: the exceptions a document
  that is not accepted ends in.
\<close>

fun node_key :: "json \<Rightarrow> bool" where
  "node_key JNull = False"
| "node_key (JArr xs) = False"
| "node_key (JObj kvs) = False"
| "node_key v = True"

definition node_entry :: "json \<Rightarrow> bool" where
  "node_entry x =
     (case (field x ''text_content'', field x ''id'') of
        (Some t, Some n) \<Rightarrow> node_key n
      | _ \<Rightarrow> False)"

definition link_entry :: "json \<Rightarrow> bool" where
  "link_entry x =
     (case (field x ''source'', field x ''target'') of
        (Some u, Some v) \<Rightarrow> node_key u \<and> node_key v
      | _ \<Rightarrow> False)"

fun collection :: "json \<Rightarrow> json list option" where
  "collection (JArr xs) = Some xs"
| "collection (JStr s) = (if s = [] then Some [] else None)"
| "collection (JObj kvs) = (if kvs = [] then Some [] else None)"
| "collection x = None"

definition accepted :: "json \<Rightarrow> bool" where
  "accepted data =
     (case (field data ''nodes'', field data ''links'') of
        (Some ns, Some ls) \<Rightarrow>
          (case (collection ns, collection ls) of
             (Some node_list, Some link_list) \<Rightarrow>
               list_all node_entry node_list \<and> list_all link_entry link_list
           | _ \<Rightarrow> False)
      | _ \<Rightarrow> False)"

fun malformed_document_error :: "exn \<Rightarrow> bool" where
  "malformed_document_error (KeyError key) = True"
| "malformed_document_error TypeError = True"
| "malformed_document_error ValueError = True"
| "malformed_document_error e = False"

text \<open>
  Notions the theorems about crawls are stated with.  A graph has no dangling edge when
  both ends of every edge are nodes; \<open>keeps G G'\<close> says that every node of \<open>G\<close> is a node
  of \<open>G'\<close> with the same attribute and that \<open>G'\<close> has no dangling edge if \<open>G\<close> has none;
  \<open>final_state\<close> is the state a call ends in, however it ends, and \<open>ran_out\<close> says that
  it ended at the bound on the depth; a site's links stay within \<open>U\<close> when every followed
  link of every page it can serve resolves to a URL of \<open>U\<close>.
\<close>

definition no_dangling :: "digraph \<Rightarrow> bool" where
  "no_dangling G = (\<forall>u v. has_edge G u v \<longrightarrow> has_node G u \<and> has_node G v)"

definition keeps :: "digraph \<Rightarrow> digraph \<Rightarrow> bool" where
  "keeps G G' =
     ((\<forall>n. has_node G n \<longrightarrow> map_of (node_dict G') n = map_of (node_dict G) n)
      \<and> (no_dangling G \<longrightarrow> no_dangling G')
      \<and> (distinct (map fst (edge_dict G)) \<longrightarrow> distinct (map fst (edge_dict G'))))"

fun final_state :: "outcome \<Rightarrow> crawl_state" where
  "final_state (OutOfFuel st) = st"
| "final_state (Raised e st) = st"
| "final_state (Returned st) = st"

fun ran_out :: "outcome \<Rightarrow> bool" where
  "ran_out (OutOfFuel st) = True"
| "ran_out (Raised e st) = False"
| "ran_out (Returned st) = False"

definition links_within ::
    "fetcher \<Rightarrow> (url \<Rightarrow> string \<Rightarrow> exn + url) \<Rightarrow> url \<Rightarrow> url set \<Rightarrow> bool" where
  "links_within net uj root U =
     (\<forall>log u status_code soup href target.
        net log u = Response status_code soup \<and> href \<in> set (hrefs soup)
        \<and> startswith href ''/'' \<and> href \<noteq> ''/'' \<and> uj root href = Inr target \<longrightarrow> target \<in> U)"

text \<open>
  Four small sites on the host \<^verbatim>\<open>http://s\<close>.  On the first the home page links to
  \<^verbatim>\<open>/a\<close>, which answers 404.  The second answers the first request with a page and
  every later one with 503.  The third is one page without links.  On the fourth the
  home page links to \<^verbatim>\<open>/a\<close>, \<^verbatim>\<open>/a\<close> to \<^verbatim>\<open>/b\<close> and \<^verbatim>\<open>/b\<close> back to \<^verbatim>\<open>/a\<close>.
\<close>

definition broken_link_site :: fetcher where
  "broken_link_site log u =
     (if u = ''http://s'' then Response 200 \<lparr>hrefs = [''/a''], p_tags = [''home'']\<rparr>
      else Response 404 \<lparr>hrefs = [], p_tags = []\<rparr>)"

definition flaky_site :: fetcher where
  "flaky_site log u =
     (if log = [] then Response 200 \<lparr>hrefs = [], p_tags = [''home'']\<rparr>
      else Response 503 \<lparr>hrefs = [], p_tags = []\<rparr>)"

definition one_page_site :: fetcher where
  "one_page_site log u = Response 200 \<lparr>hrefs = [], p_tags = [''home'']\<rparr>"

definition cyclic_site :: fetcher where
  "cyclic_site log u =
     (if u = ''http://s'' then Response 200 \<lparr>hrefs = [''/a''], p_tags = []\<rparr>
      else if u = ''http://s/a'' then Response 200 \<lparr>hrefs = [''/b''], p_tags = []\<rparr>
      else if u = ''http://s/b'' then Response 200 \<lparr>hrefs = [''/a''], p_tags = []\<rparr>
      else Response 404 \<lparr>hrefs = [], p_tags = []\<rparr>)"

text \<open>The calls, the requests and the text extractions of a crawl, however it ended.\<close>

definition visits_of :: "outcome \<Rightarrow> url list" where
  "visits_of r = visited (final_state r)"

definition requests_of :: "outcome \<Rightarrow> url list" where
  "requests_of r = requested (final_state r)"

definition extractions_of :: "outcome \<Rightarrow> url list" where
  "extractions_of r = extracted (final_state r)"

text \<open>The URLs of \<open>U\<close> that are not nodes of the graph yet.\<close>

definition unvisited :: "url set \<Rightarrow> digraph \<Rightarrow> url set" where
  "unvisited U G = {u \<in> U. \<not> has_node G (JStr u)}"

text \<open>
  \<open>logged\<close>: every URL visited, requested or extracted so far is a node.
  \<open>counts_kept st st'\<close>: from \<open>st\<close> to \<open>st'\<close>, a URL that was a node has been visited,
  requested and extracted no further time, and any other URL has been visited at most
  once, requested at most twice and extracted at most twice in all.
\<close>

definition logged :: "crawl_state \<Rightarrow> bool" where
  "logged st =
     (\<forall>u \<in> set (visited st) \<union> set (requested st) \<union> set (extracted st).
        has_node (website_graph st) (JStr u))"

definition counts_kept :: "crawl_state \<Rightarrow> crawl_state \<Rightarrow> bool" where
  "counts_kept st st' =
     (\<forall>u. (has_node (website_graph st) (JStr u) \<longrightarrow>
             count_list (visited st') u = count_list (visited st) u
             \<and> count_list (requested st') u = count_list (requested st) u
             \<and> count_list (extracted st') u = count_list (extracted st) u)
        \<and> (\<not> has_node (website_graph st) (JStr u) \<longrightarrow>
             count_list (visited st') u \<le> 1
             \<and> count_list (requested st') u \<le> 2
             \<and> count_list (extracted st') u \<le> 2))"

text \<open>
  What networkx guarantees of every \<^verbatim>\<open>DiGraph\<close>: the nodes are the keys of a dict and so
  are the edges, every node is hashable and not \<^verbatim>\<open>None\<close>, and both ends of every edge
  are nodes.  \<open>every_node_has_text\<close>: every node carries a \<^verbatim>\<open>text_content\<close> attribute.
\<close>

definition is_nx_graph :: "digraph \<Rightarrow> bool" where
  "is_nx_graph G =
     (distinct (map fst (node_dict G)) \<and> distinct (map fst (edge_dict G))
      \<and> list_all (\<lambda>(n, a). \<not> unhashable n \<and> n \<noteq> JNull) (node_dict G)
      \<and> no_dangling G)"

definition every_node_has_text :: "digraph \<Rightarrow> bool" where
  "every_node_has_text G = list_all (\<lambda>(n, a). a \<noteq> None) (node_dict G)"

text \<open>
  \<open>links_to\<close> counts the followed links of a page that resolve to one target.
  \<open>bumped a n\<close> is the entry of an edge after \<open>n\<close> calls of \<open>add_weighted_edge\<close> that
  returned, when \<open>a\<close> was its entry before (\<open>None\<close>: no such edge).  \<open>has_text G u\<close>: the
  URL is a node with a \<^verbatim>\<open>text_content\<close> attribute, which in a crawl only line 48 sets,
  after both requests for the page succeeded.  \<open>page_edges_counted\<close>: the network has given a
  page for the URL whose followed links, target by target, are exactly the edges that
  leave the URL, each with the number of those links as its weight.
\<close>

definition links_to :: "(url \<Rightarrow> string \<Rightarrow> exn + url) \<Rightarrow> url \<Rightarrow> url \<Rightarrow> string list \<Rightarrow> nat" where
  "links_to uj root target links =
     length (filter (\<lambda>href. (startswith href ''/'' \<and> href \<noteq> ''/'') \<and> uj root href = Inr target) links)"

definition bumped :: "int option option \<Rightarrow> nat \<Rightarrow> int option option" where
  "bumped a n =
     (if n = 0 then a
      else case a of
             None \<Rightarrow> Some (Some (int n))
           | Some None \<Rightarrow> Some None
           | Some (Some w) \<Rightarrow> Some (Some (w + int n)))"

definition page_edges_counted ::
    "fetcher \<Rightarrow> (url \<Rightarrow> string \<Rightarrow> exn + url) \<Rightarrow> url \<Rightarrow> digraph \<Rightarrow> url \<Rightarrow> bool" where
  "page_edges_counted net uj root G page_url =
     (\<exists>log status_code soup.
        net log page_url = Response status_code soup
        \<and> \<not> (400 \<le> status_code \<and> status_code < 600)
        \<and> (\<forall>target. map_of (edge_dict G) (JStr page_url, JStr target) =
               bumped None (links_to uj root target (hrefs soup))))"

definition has_text :: "digraph \<Rightarrow> url \<Rightarrow> bool" where
  "has_text G u = (\<exists>t. map_of (node_dict G) (JStr u) = Some (Some t))"

text \<open>The site of the specification's first scenario: two links to \<^verbatim>\<open>/a\<close>, one external link, one link to \<^verbatim>\<open>/\<close>.\<close>

definition two_links_site :: fetcher where
  "two_links_site log u =
     (if u = ''http://s''
      then Response 200 \<lparr>hrefs = [''/a'', ''/a'', ''http://other.com'', ''/''], p_tags = []\<rparr>
      else if u = ''http://s/a'' then Response 200 \<lparr>hrefs = [], p_tags = []\<rparr>
      else Response 404 \<lparr>hrefs = [], p_tags = []\<rparr>)"

text \<open>A page whose only link is the malformed href, which the loop would not follow.\<close>

definition malformed_link_site :: fetcher where
  "malformed_link_site log u = Response 200 \<lparr>hrefs = [''http://[''], p_tags = []\<rparr>"

section \<open>Facts about the graph store\<close>

lemma has_node_update [simp]:
  "has_node (G\<lparr>node_dict := AList.update n a (node_dict G)\<rparr>) m = (m = n \<or> has_node G m)"
  by (simp add: has_node_def update_conv')

lemma add_node_JStr:
  "add_node G (JStr u) t = Inr (G\<lparr>node_dict := AList.update (JStr u) (Some t) (node_dict G)\<rparr>)"
  by (simp add: add_node_def)

lemma ensure_node_JStr:
  "ensure_node G (JStr u) =
     Inr (if has_node G (JStr u) then G else G\<lparr>node_dict := node_dict G @ [(JStr u, None)]\<rparr>)"
  by (simp add: ensure_node_def)

lemma map_of_ensured:
  "ensure_node G n = Inr G' \<Longrightarrow>
     map_of (node_dict G') = (\<lambda>m. if has_node G m then map_of (node_dict G) m
                               else if m = n then Some None else None)
     \<and> edge_dict G' = edge_dict G"
  by (auto simp: ensure_node_def has_node_def map_add_def fun_eq_iff split: if_splits option.splits)

lemma add_edge_nodes:
  assumes "add_edge G u v attr = Inr G'"
  shows "map_of (node_dict G') m =
           (if has_node G m then map_of (node_dict G) m
            else if m = u \<or> m = v then Some None else None)"
proof -
  from assms obtain G1 G2 where 1: "ensure_node G u = Inr G1" and 2: "ensure_node G1 v = Inr G2"
    and 3: "node_dict G' = node_dict G2"
    by (auto simp: add_edge_def Let_def split: sum.splits)
  show ?thesis
    using map_of_ensured[OF 1] map_of_ensured[OF 2] 3
    by (auto simp: has_node_def)
qed

lemma add_edge_edges:
  assumes "add_edge G u v attr = Inr G'"
  shows "map_of (edge_dict G') =
           (map_of (edge_dict G))((u, v) \<mapsto>
              (case attr of Some w \<Rightarrow> Some w
               | None \<Rightarrow> (case map_of (edge_dict G) (u, v) of Some d \<Rightarrow> d | None \<Rightarrow> None)))"
proof -
  from assms obtain G1 G2 where 1: "ensure_node G u = Inr G1" and 2: "ensure_node G1 v = Inr G2"
    and 3: "edge_dict G' = AList.update (u, v) (case attr of Some w \<Rightarrow> Some w
               | None \<Rightarrow> (case map_of (edge_dict G2) (u, v) of Some d \<Rightarrow> d | None \<Rightarrow> None)) (edge_dict G2)"
    by (auto simp: add_edge_def Let_def split: sum.splits)
  show ?thesis
    using map_of_ensured[OF 1] map_of_ensured[OF 2] 3
    by (simp add: update_conv' split: option.splits)
qed

lemma add_edge_JStr: "\<exists>G'. add_edge G (JStr s) (JStr t) attr = Inr G'"
  by (simp add: add_edge_def ensure_node_JStr Let_def)

section \<open>Claims about the graph store\<close>

text \<open>
  C10.  For every graph and every pair of URLs with no edge between them,
  \<open>add_weighted_edge\<close> does not fail: it returns a graph in which the edge has weight 1
  and every other edge is as before; an endpoint that was not a node has become one
  with no \<^verbatim>\<open>text_content\<close> attribute, and every other node is as before.
\<close>

theorem add_weighted_edge_new_edge:
  assumes "\<not> has_edge G (JStr source) (JStr target)"
  shows "\<exists>G'. add_weighted_edge G (JStr source) (JStr target) = Inr G'
      \<and> map_of (edge_dict G') (JStr source, JStr target) = Some (Some 1)
      \<and> (\<forall>e. e \<noteq> (JStr source, JStr target) \<longrightarrow> map_of (edge_dict G') e = map_of (edge_dict G) e)
      \<and> (\<forall>n. map_of (node_dict G') n =
            (if has_node G n then map_of (node_dict G) n
             else if n = JStr source \<or> n = JStr target then Some None else None))"
proof -
  obtain G' where G': "add_edge G (JStr source) (JStr target) (Some 1) = Inr G'"
    using add_edge_JStr by blast
  have "add_weighted_edge G (JStr source) (JStr target) = Inr G'"
    using assms G' by (simp add: add_weighted_edge_def)
  then show ?thesis
    using add_edge_nodes[OF G'] add_edge_edges[OF G'] by simp
qed

theorem add_weighted_edge_new_edge_witness:
  "\<not> has_edge DiGraph (JStr ''/a'') (JStr ''/b'')
   \<and> add_weighted_edge DiGraph (JStr ''/a'') (JStr ''/b'') =
       Inr \<lparr>node_dict = [(JStr ''/a'', None), (JStr ''/b'', None)],
            edge_dict = [((JStr ''/a'', JStr ''/b''), Some 1)]\<rparr>"
  using add_weighted_edge_new_edge[of DiGraph "''/a''" "''/b''"]
  by (simp add: has_edge_def DiGraph_def add_weighted_edge_def add_edge_def ensure_node_def has_node_def)

section \<open>Facts about one call and one round of the loop\<close>

lemma requests_get_cases:
  obtains (failed) e where "requests_get net u st = (Inl e, st\<lparr>requested := requested st @ [u]\<rparr>)"
  | (ok) status_code soup where "net (requested st) u = Response status_code soup"
      "\<not> (400 \<le> status_code \<and> status_code < 600)"
      "requests_get net u st = (Inr soup, st\<lparr>requested := requested st @ [u]\<rparr>)"
proof (cases "net (requested st) u")
  case NoResponse
  then show thesis by (intro failed[of ConnectionError]) (simp add: requests_get_def Let_def)
next
  case (Response status_code soup)
  show thesis
  proof (cases "400 \<le> status_code \<and> status_code < 600")
    case True
    with Response show thesis
      by (intro failed[of "HTTPError status_code"]) (simp add: requests_get_def Let_def)
  next
    case False
    with Response show thesis
      by (intro ok[of status_code soup]) (simp_all add: requests_get_def Let_def)
  qed
qed

lemma get_main_text_cases:
  obtains (failed) e where "get_main_text net u st = (Inl e, st\<lparr>requested := requested st @ [u]\<rparr>)"
  | (ok) t where
      "get_main_text net u st =
         (Inr t, st\<lparr>requested := requested st @ [u], extracted := extracted st @ [u]\<rparr>)"
  by (rule requests_get_cases[of net u st]) (auto simp: get_main_text_def)

text \<open>The three ways one call of website_to_graph goes.\<close>

lemma website_to_graph_Suc_cases:
  obtains (fetch_failed)
      "website_to_graph (Suc d) net uj root prev new st =
         Returned (st\<lparr>visited := visited st @ [new], requested := requested st @ [new]\<rparr>)"
  | (text_failed) e where
      "website_to_graph (Suc d) net uj root prev new st =
         Raised e (st\<lparr>visited := visited st @ [new], requested := requested st @ [new, new],
           extracted := extracted st @ [new]\<rparr>)"
  | (visited) status_code soup t where
      "net (requested st) new = Response status_code soup"
      "\<not> (400 \<le> status_code \<and> status_code < 600)"
      "website_to_graph (Suc d) net uj root prev new st =
         follow_links d net uj root prev (hrefs soup)
           (st\<lparr>visited := visited st @ [new], requested := requested st @ [new, new],
              extracted := extracted st @ [new, new],
              website_graph := (website_graph st)\<lparr>node_dict :=
                AList.update (JStr new) (Some (JStr t)) (node_dict (website_graph st))\<rparr>\<rparr>)"
proof -
  let ?st0 = "st\<lparr>visited := visited st @ [new]\<rparr>"
  show thesis
  proof (rule requests_get_cases[of net new ?st0])
    fix e assume "requests_get net new ?st0 = (Inl e, ?st0\<lparr>requested := requested ?st0 @ [new]\<rparr>)"
    then show thesis by (intro fetch_failed) simp
  next
    fix status_code soup
    let ?st1 = "?st0\<lparr>requested := requested ?st0 @ [new]\<rparr>"
    let ?st2 = "?st1\<lparr>extracted := extracted ?st1 @ [new]\<rparr>"
    assume net: "net (requested ?st0) new = Response status_code soup"
      "\<not> (400 \<le> status_code \<and> status_code < 600)"
      and get: "requests_get net new ?st0 = (Inr soup, ?st1)"
    show thesis
    proof (rule get_main_text_cases[of net new ?st2])
      fix e assume "get_main_text net new ?st2 = (Inl e, ?st2\<lparr>requested := requested ?st2 @ [new]\<rparr>)"
      with get show thesis by (intro text_failed[of e]) simp
    next
      fix t assume "get_main_text net new ?st2 =
           (Inr t, ?st2\<lparr>requested := requested ?st2 @ [new], extracted := extracted ?st2 @ [new]\<rparr>)"
      with get net show thesis by (intro visited[of status_code soup t]) (simp_all add: add_node_JStr)
    qed
  qed
qed

lemma keeps_refl [simp]: "keeps G G"
  by (simp add: keeps_def)

lemma keeps_trans: "keeps G G' \<Longrightarrow> keeps G' G'' \<Longrightarrow> keeps G G''"
  by (auto simp: keeps_def has_node_def)

lemma keeps_has_node: "keeps G G' \<Longrightarrow> has_node G n \<Longrightarrow> has_node G' n"
  by (auto simp: keeps_def has_node_def)

lemma keeps_add_node:
  "\<not> has_node G n \<Longrightarrow> keeps G (G\<lparr>node_dict := AList.update n a (node_dict G)\<rparr>)"
  by (auto simp: keeps_def no_dangling_def has_edge_def has_node_def update_conv')

lemma add_weighted_edge_edges:
  assumes "add_weighted_edge G (JStr s) (JStr t) = Inr G'"
  shows "map_of (edge_dict G') =
           (map_of (edge_dict G))((JStr s, JStr t) \<mapsto>
              Some (case map_of (edge_dict G) (JStr s, JStr t) of Some (Some w) \<Rightarrow> w + 1 | _ \<Rightarrow> 1))"
proof (cases "has_edge G (JStr s) (JStr t)")
  case True
  with assms show ?thesis
    by (auto simp: add_weighted_edge_def has_edge_def update_conv' split: option.splits)
next
  case False
  with assms have "add_edge G (JStr s) (JStr t) (Some 1) = Inr G'"
    by (simp add: add_weighted_edge_def)
  from add_edge_edges[OF this] False show ?thesis
    by (simp add: has_edge_def)
qed

lemma add_weighted_edge_nodes:
  assumes "add_weighted_edge G (JStr s) (JStr t) = Inr G'"
  shows "has_node G n \<Longrightarrow> map_of (node_dict G') n = map_of (node_dict G) n"
    and "no_dangling G \<Longrightarrow> has_node G' (JStr s) \<and> has_node G' (JStr t)"
    and "map_of (node_dict G') n = Some (Some x) \<Longrightarrow> map_of (node_dict G) n = Some (Some x)"
proof -
  have "(has_node G n \<longrightarrow> map_of (node_dict G') n = map_of (node_dict G) n)
      \<and> (no_dangling G \<longrightarrow> has_node G' (JStr s) \<and> has_node G' (JStr t))
      \<and> (map_of (node_dict G') n = Some (Some x) \<longrightarrow> map_of (node_dict G) n = Some (Some x))"
  proof (cases "has_edge G (JStr s) (JStr t)")
    case True
    with assms have "node_dict G' = node_dict G"
      by (auto simp: add_weighted_edge_def split: option.splits)
    with True show ?thesis by (auto simp: no_dangling_def has_node_def)
  next
    case False
    with assms have "add_edge G (JStr s) (JStr t) (Some 1) = Inr G'"
      by (simp add: add_weighted_edge_def)
    from add_edge_nodes[OF this] show ?thesis
      by (auto simp: has_node_def split: if_splits)
  qed
  then show "has_node G n \<Longrightarrow> map_of (node_dict G') n = map_of (node_dict G) n"
    and "no_dangling G \<Longrightarrow> has_node G' (JStr s) \<and> has_node G' (JStr t)"
    and "map_of (node_dict G') n = Some (Some x) \<Longrightarrow> map_of (node_dict G) n = Some (Some x)"
    by blast+
qed

lemma add_weighted_edge_distinct:
  assumes "add_weighted_edge G (JStr s) (JStr t) = Inr G'" "distinct (map fst (edge_dict G))"
  shows "distinct (map fst (edge_dict G'))"
proof (cases "has_edge G (JStr s) (JStr t)")
  case True
  with assms show ?thesis
    by (auto simp: add_weighted_edge_def distinct_update split: option.splits)
next
  case False
  with assms have "add_edge G (JStr s) (JStr t) (Some 1) = Inr G'"
    by (simp add: add_weighted_edge_def)
  then obtain G1 G2 x where "ensure_node G (JStr s) = Inr G1" "ensure_node G1 (JStr t) = Inr G2"
    "edge_dict G' = AList.update (JStr s, JStr t) x (edge_dict G2)"
    by (auto simp: add_edge_def Let_def split: sum.splits)
  with map_of_ensured[of G "JStr s" G1] map_of_ensured[of G1 "JStr t" G2] assms(2)
  show ?thesis by (simp add: distinct_update)
qed

lemma keeps_add_weighted_edge:
  assumes "add_weighted_edge G (JStr s) (JStr t) = Inr G'"
  shows "keeps G G'"
proof -
  have "no_dangling G'" if nd: "no_dangling G"
    unfolding no_dangling_def
  proof (intro allI impI)
    fix u v assume e: "has_edge G' u v"
    show "has_node G' u \<and> has_node G' v"
    proof (cases "(u, v) = (JStr s, JStr t)")
      case True
      with add_weighted_edge_nodes(2)[OF assms nd] show ?thesis by simp
    next
      case False
      with e add_weighted_edge_edges[OF assms] have "has_edge G u v"
        by (auto simp: has_edge_def)
      with nd have "has_node G u \<and> has_node G v" by (simp add: no_dangling_def)
      with add_weighted_edge_nodes(1)[OF assms] show ?thesis
        by (auto simp: has_node_def)
    qed
  qed
  with add_weighted_edge_nodes(1)[OF assms] add_weighted_edge_distinct[OF assms] show ?thesis
    by (simp add: keeps_def)
qed


lemma crawl_induct [case_names out_of_fuel visit no_links link]:
  assumes "\<And>prev new st. P 0 prev new st"
    and "\<And>d prev new st. (\<And>links st'. Q d prev links st') \<Longrightarrow> P (Suc d) prev new st"
    and "\<And>d prev st. Q d prev [] st"
    and "\<And>d prev href links st.
           (\<And>new st'. P d new new st') \<Longrightarrow> (\<And>st'. Q d prev links st') \<Longrightarrow> Q d prev (href # links) st"
  shows "P (d::nat) (prev::url) (new::url) (st::crawl_state)"
    and "Q d prev (links::string list) st"
proof -
  have "(\<forall>prev new st. P d prev new st) \<and> (\<forall>prev links st. Q d prev links st)"
  proof (induction d)
    case 0
    have p: "P 0 prev new st" for prev new st by (rule assms(1))
    have "Q 0 prev links st" for prev links st
      by (induction links arbitrary: st) (auto intro: assms(3) assms(4) p)
    with p show ?case by blast
  next
    case (Suc d)
    have p: "P (Suc d) prev new st" for prev new st
      using Suc by (intro assms(2)) blast
    have "Q (Suc d) prev links st" for prev links st
      by (induction links arbitrary: st) (auto intro: assms(3) assms(4) p)
    with p show ?case by blast
  qed
  then show "P d prev new st" and "Q d prev links st" by blast+
qed

text \<open>The ways one round of the loop goes, for a link that is followed.\<close>

lemma follow_links_Cons_cases:
  assumes "startswith href ''/'' \<and> href \<noteq> ''/''"
  obtains (malformed) e where
      "uj root href = Inl e"
      "follow_links d net uj root prev (href # links) st = Raised e st"
  | (out_of_fuel) target st1 where
      "uj root href = Inr target"
      "\<not> has_node (website_graph st) (JStr target)"
      "website_to_graph d net uj root target target st = OutOfFuel st1"
      "follow_links d net uj root prev (href # links) st = OutOfFuel st1"
  | (raised) target e st1 where
      "uj root href = Inr target"
      "\<not> has_node (website_graph st) (JStr target)"
      "website_to_graph d net uj root target target st = Raised e st1"
      "follow_links d net uj root prev (href # links) st = Raised e st1"
  | (visited) target st1 where
      "uj root href = Inr target"
      "\<not> has_node (website_graph st) (JStr target)"
      "website_to_graph d net uj root target target st = Returned st1"
      "follow_links d net uj root prev (href # links) st =
         (case add_weighted_edge (website_graph st1) (JStr prev) (JStr target) of
            Inl e \<Rightarrow> Raised e st1
          | Inr G \<Rightarrow> follow_links d net uj root prev links (st1\<lparr>website_graph := G\<rparr>))"
  | (known) target where
      "uj root href = Inr target"
      "has_node (website_graph st) (JStr target)"
      "follow_links d net uj root prev (href # links) st =
         (case add_weighted_edge (website_graph st) (JStr prev) (JStr target) of
            Inl e \<Rightarrow> Raised e st
          | Inr G \<Rightarrow> follow_links d net uj root prev links (st\<lparr>website_graph := G\<rparr>))"
proof (cases "uj root href")
  case (Inl e)
  then show thesis by (intro malformed[of e]) simp_all
next
  case (Inr target)
  show thesis
  proof (cases "has_node (website_graph st) (JStr target)")
    case True
    with assms Inr show thesis by (intro known[of target]) simp_all
  next
    case False
    show thesis
    proof (cases "website_to_graph d net uj root target target st")
      case (OutOfFuel st1)
      with False assms Inr show thesis by (intro out_of_fuel[of target st1]) simp_all
    next
      case (Raised e st1)
      with False assms Inr show thesis by (intro raised[of target e st1]) simp_all
    next
      case (Returned st1)
      with False assms Inr show thesis by (intro visited[of target st1]) simp_all
    qed
  qed
qed

text \<open>One round of the loop for a link that is not followed.\<close>

lemma follow_links_skip:
  "\<not> (startswith href ''/'' \<and> href \<noteq> ''/'') \<Longrightarrow>
     follow_links d net uj root prev (href # links) st =
       (case uj root href of
          Inl e \<Rightarrow> Raised e st
        | Inr target \<Rightarrow> follow_links d net uj root prev links st)"
  by (cases "startswith href ''/''") (simp_all split: sum.splits)

declare website_to_graph.simps(2) [simp del] follow_links.simps(2) [simp del]

lemma crawl_keeps:
  "final_state (website_to_graph d net uj root prev new st) = st' \<Longrightarrow>
     \<not> has_node (website_graph st) (JStr new) \<Longrightarrow> keeps (website_graph st) (website_graph st')"
  "final_state (follow_links d net uj root prev links st) = st' \<Longrightarrow>
     keeps (website_graph st) (website_graph st')"
proof (induction d prev new st and d prev links st arbitrary: st' and st' rule: crawl_induct)
  case (out_of_fuel prev new st)
  then show ?case by auto
next
  case (visit d prev new st)
  show ?case
  proof (rule website_to_graph_Suc_cases[of d net uj root prev new st])
    assume "website_to_graph (Suc d) net uj root prev new st =
      Returned (st\<lparr>visited := visited st @ [new], requested := requested st @ [new]\<rparr>)"
    with visit.prems show ?thesis by auto
  next
    fix e assume "website_to_graph (Suc d) net uj root prev new st =
         Raised e (st\<lparr>visited := visited st @ [new], requested := requested st @ [new, new],
           extracted := extracted st @ [new]\<rparr>)"
    with visit.prems show ?thesis by auto
  next
    fix status_code and soup :: page and t
    let ?G1 = "(website_graph st)\<lparr>node_dict :=
                AList.update (JStr new) (Some (JStr t)) (node_dict (website_graph st))\<rparr>"
    let ?st1 = "st\<lparr>visited := visited st @ [new], requested := requested st @ [new, new],
              extracted := extracted st @ [new, new],
              website_graph := ?G1\<rparr>"
    assume eq: "website_to_graph (Suc d) net uj root prev new st =
         follow_links d net uj root prev (hrefs soup) ?st1"
    with visit.prems visit.IH[of "hrefs soup" ?st1 st']
    have "keeps ?G1 (website_graph st')" by simp
    with keeps_add_node[of "website_graph st" "JStr new" "Some (JStr t)"] visit.prems(2)
    show ?thesis by (blast intro: keeps_trans)
  qed
next
  case (no_links d prev st)
  then show ?case by auto
next
  case (link d prev href links st)
  show ?case
  proof (cases "startswith href ''/'' \<and> href \<noteq> ''/''")
    case False
    with link.prems link.IH(2)[of st st'] follow_links_skip[OF False, of d net uj root prev links st]
    show ?thesis by (cases "uj root href") auto
  next
    case True
    show ?thesis
    proof (rule follow_links_Cons_cases[OF True, of uj root d net prev links st])
      fix e
      assume "follow_links d net uj root prev (href # links) st = Raised e st"
      with link.prems show ?thesis by auto
    next
      fix target st1
      assume "\<not> has_node (website_graph st) (JStr target)"
        "website_to_graph d net uj root target target st = OutOfFuel st1"
        "follow_links d net uj root prev (href # links) st = OutOfFuel st1"
      with link.prems link.IH(1)[of target st st1] show ?thesis by simp
    next
      fix target e st1
      assume "\<not> has_node (website_graph st) (JStr target)"
        "website_to_graph d net uj root target target st = Raised e st1"
        "follow_links d net uj root prev (href # links) st = Raised e st1"
      with link.prems link.IH(1)[of target st st1] show ?thesis by simp
    next
      fix target st1
      assume a: "\<not> has_node (website_graph st) (JStr target)"
        "website_to_graph d net uj root target target st = Returned st1"
        "follow_links d net uj root prev (href # links) st =
         (case add_weighted_edge (website_graph st1) (JStr prev) (JStr target) of
            Inl e \<Rightarrow> Raised e st1
          | Inr G \<Rightarrow> follow_links d net uj root prev links (st1\<lparr>website_graph := G\<rparr>))"
      from a link.IH(1)[of target st st1] have k1: "keeps (website_graph st) (website_graph st1)"
        by simp
      show ?thesis
      proof (cases "add_weighted_edge (website_graph st1) (JStr prev) (JStr target)")
        case (Inl e)
        with a link.prems k1 show ?thesis by auto
      next
        case (Inr G)
        with a link.prems link.IH(2)[of "st1\<lparr>website_graph := G\<rparr>" st']
        have "keeps G (website_graph st')" by simp
        with k1 keeps_add_weighted_edge[OF Inr] show ?thesis by (blast intro: keeps_trans)
      qed
    next
      fix target
      assume a: "has_node (website_graph st) (JStr target)"
        "follow_links d net uj root prev (href # links) st =
         (case add_weighted_edge (website_graph st) (JStr prev) (JStr target) of
            Inl e \<Rightarrow> Raised e st
          | Inr G \<Rightarrow> follow_links d net uj root prev links (st\<lparr>website_graph := G\<rparr>))"
      show ?thesis
      proof (cases "add_weighted_edge (website_graph st) (JStr prev) (JStr target)")
        case (Inl e)
        with a link.prems show ?thesis by auto
      next
        case (Inr G)
        with a link.prems link.IH(2)[of "st\<lparr>website_graph := G\<rparr>" st']
        have "keeps G (website_graph st')" by simp
        with keeps_add_weighted_edge[OF Inr] show ?thesis by (blast intro: keeps_trans)
      qed
    qed
  qed
qed

text \<open>A call that ended at one depth ends the same way at every greater depth.\<close>

lemma more_fuel_same_outcome:
  "\<not> ran_out (website_to_graph d net uj root prev new st) \<Longrightarrow>
     website_to_graph (Suc d) net uj root prev new st = website_to_graph d net uj root prev new st"
  "\<not> ran_out (follow_links d net uj root prev links st) \<Longrightarrow>
     follow_links (Suc d) net uj root prev links st = follow_links d net uj root prev links st"
proof (induction d prev new st and d prev links st rule: crawl_induct)
  case (out_of_fuel prev new st)
  then show ?case by simp
next
  case (visit d prev new st)
  then show ?case
    by (auto simp: website_to_graph.simps split: prod.splits sum.splits)
next
  case (no_links d prev st)
  show ?case by simp
next
  case (link d prev href links st)
  show ?case
  proof (cases "uj root href")
    case (Inl e)
    then show ?thesis by (simp add: follow_links.simps)
  next
    case (Inr target)
    show ?thesis
    proof (cases "startswith href ''/'' \<and> href \<noteq> ''/''")
      case False
      with Inr link.prems link.IH(2)[of st] show ?thesis
        by (simp add: follow_links_skip)
    next
      case True
      show ?thesis
      proof (cases "has_node (website_graph st) (JStr target)")
        case known: True
        with True Inr link.prems link.IH(2) show ?thesis
          by (auto simp: follow_links.simps split: sum.splits)
      next
        case new: False
        with True Inr link.prems have "\<not> ran_out (website_to_graph d net uj root target target st)"
          by (auto simp: follow_links.simps split: outcome.splits)
        from link.IH(1)[OF this] True Inr new link.prems link.IH(2) show ?thesis
          by (auto simp: follow_links.simps split: sum.splits outcome.splits)
      qed
    qed
  qed
qed

section \<open>Claims about the crawler\<close>

lemmas crawl_defs = website_to_graph.simps follow_links.simps requests_get_def get_main_text_def add_node_def has_node_def
  add_weighted_edge_def has_edge_def add_edge_def ensure_node_def startswith_def Let_def
  simple_urljoin_def fresh_crawl_def DiGraph_def

text \<open>
  C1.  The claim fails on the site whose home page links to \<^verbatim>\<open>/a\<close> while \<^verbatim>\<open>/a\<close> answers
  404: the failed visit of \<^verbatim>\<open>/a\<close> returns the graph unchanged, but the caller's loop
  goes on to line 65 and adds the edge into \<^verbatim>\<open>/a\<close>, and \<^verbatim>\<open>add_edge\<close> makes \<^verbatim>\<open>/a\<close> a node
  with no \<^verbatim>\<open>text_content\<close>.  The crawl, at any depth of two or more, returns:
\<close>

theorem failed_fetch_still_linked:
  "website_to_graph (Suc (Suc d)) broken_link_site simple_urljoin
       ''http://s'' ''http://s'' ''http://s'' fresh_crawl =
     Returned \<lparr>visited = [''http://s'', ''http://s/a''],
       requested = [''http://s'', ''http://s'', ''http://s/a''],
       extracted = [''http://s'', ''http://s''],
       website_graph =
         \<lparr>node_dict = [(JStr ''http://s'', Some (JStr (''home'' @ [CHR 0x0A]))),
                       (JStr ''http://s/a'', None)],
          edge_dict = [((JStr ''http://s'', JStr ''http://s/a''), Some 1)]\<rparr>\<rparr>"
  by (simp add: crawl_defs broken_link_site_def)

text \<open>
  C2.  The claim fails on the site that answers only its first request: the request
  of line 35 succeeds, the request \<^verbatim>\<open>get_main_text\<close> makes for the same URL (line 73)
  gets a 503, and \<^verbatim>\<open>raise_for_status\<close> raises outside every \<^verbatim>\<open>try\<close>.  The crawl, at any
  depth, raises \<^verbatim>\<open>HTTPError\<close> and returns no graph:
\<close>

theorem second_request_uncaught:
  "website_to_graph (Suc d) flaky_site simple_urljoin ''http://s'' ''http://s'' ''http://s'' fresh_crawl =
     Raised (HTTPError 503)
       \<lparr>visited = [''http://s''], requested = [''http://s'', ''http://s''],
        extracted = [''http://s''], website_graph = DiGraph\<rparr>"
  by (simp add: crawl_defs flaky_site_def)

lemma unvisited_keeps:
  "finite U \<Longrightarrow> keeps G G' \<Longrightarrow> card (unvisited U G') \<le> card (unvisited U G)"
  by (rule card_mono) (auto simp: unvisited_def dest: keeps_has_node)

lemma unvisited_add_node:
  assumes "finite U" "new \<in> U" "\<not> has_node G (JStr new)" "card (unvisited U G) \<le> Suc d"
  shows "card (unvisited U (G\<lparr>node_dict := AList.update (JStr new) a (node_dict G)\<rparr>)) \<le> d"
proof -
  have "unvisited U (G\<lparr>node_dict := AList.update (JStr new) a (node_dict G)\<rparr>) = unvisited U G - {new}"
    by (auto simp: unvisited_def)
  moreover have "new \<in> unvisited U G" "finite (unvisited U G)"
    using assms by (auto simp: unvisited_def)
  ultimately show ?thesis using assms(4) by simp
qed

lemma enough_fuel:
  assumes U: "finite U" "links_within net uj root U"
  shows "new \<in> U \<Longrightarrow> \<not> has_node (website_graph st) (JStr new) \<Longrightarrow>
           card (unvisited U (website_graph st)) \<le> d \<Longrightarrow>
           \<not> ran_out (website_to_graph d net uj root prev new st)"
    and "\<forall>href\<in>set links. startswith href ''/'' \<and> href \<noteq> ''/'' \<longrightarrow> (\<forall>target. uj root href = Inr target \<longrightarrow> target \<in> U) \<Longrightarrow>
           card (unvisited U (website_graph st)) \<le> d \<Longrightarrow>
           \<not> ran_out (follow_links d net uj root prev links st)"
proof (induction d prev new st and d prev links st rule: crawl_induct)
  case (out_of_fuel prev new st)
  from out_of_fuel.prems(1,2) have "new \<in> unvisited U (website_graph st)"
    by (simp add: unvisited_def)
  moreover have "finite (unvisited U (website_graph st))"
    using U(1) by (simp add: unvisited_def)
  ultimately have "card (unvisited U (website_graph st)) \<noteq> 0" by auto
  with out_of_fuel.prems(3) show ?case by simp
next
  case (visit d prev new st)
  show ?case
  proof (rule website_to_graph_Suc_cases[of d net uj root prev new st])
    assume "website_to_graph (Suc d) net uj root prev new st =
      Returned (st\<lparr>visited := visited st @ [new], requested := requested st @ [new]\<rparr>)"
    then show ?thesis by simp
  next
    fix e assume "website_to_graph (Suc d) net uj root prev new st =
         Raised e (st\<lparr>visited := visited st @ [new], requested := requested st @ [new, new],
           extracted := extracted st @ [new]\<rparr>)"
    then show ?thesis by simp
  next
    fix status_code and soup :: page and t
    let ?G1 = "(website_graph st)\<lparr>node_dict :=
                AList.update (JStr new) (Some (JStr t)) (node_dict (website_graph st))\<rparr>"
    let ?st1 = "st\<lparr>visited := visited st @ [new], requested := requested st @ [new, new],
              extracted := extracted st @ [new, new],
              website_graph := ?G1\<rparr>"
    assume net: "net (requested st) new = Response status_code soup"
      and eq: "website_to_graph (Suc d) net uj root prev new st =
         follow_links d net uj root prev (hrefs soup) ?st1"
    from net U(2) have "\<forall>href\<in>set (hrefs soup). startswith href ''/'' \<and> href \<noteq> ''/'' \<longrightarrow> (\<forall>target. uj root href = Inr target \<longrightarrow> target \<in> U)"
      unfolding links_within_def by blast
    moreover have "card (unvisited U (website_graph ?st1)) \<le> d"
      using unvisited_add_node[OF U(1) visit.prems] by simp
    ultimately show ?thesis
      using visit.IH[of "hrefs soup" ?st1] eq by simp
  qed
next
  case (no_links d prev st)
  show ?case by simp
next
  case (link d prev href links st)
  from link.prems(1) have rest: "\<forall>href\<in>set links. startswith href ''/'' \<and> href \<noteq> ''/'' \<longrightarrow> (\<forall>target. uj root href = Inr target \<longrightarrow> target \<in> U)"
    by simp
  show ?case
  proof (cases "startswith href ''/'' \<and> href \<noteq> ''/''")
    case False
    with link.IH(2)[of st] rest link.prems(2) follow_links_skip[OF False, of d net uj root prev links st]
    show ?thesis by (cases "uj root href") simp_all
  next
    case True
    with link.prems(1) have T: "\<And>target. uj root href = Inr target \<Longrightarrow> target \<in> U" by simp
    show ?thesis
    proof (rule follow_links_Cons_cases[OF True, of uj root d net prev links st])
      fix e
      assume "follow_links d net uj root prev (href # links) st = Raised e st"
      then show ?thesis by simp
    next
      fix target st1
      assume "uj root href = Inr target" "\<not> has_node (website_graph st) (JStr target)"
        "website_to_graph d net uj root target target st = OutOfFuel st1"
      with link.IH(1)[of target st] T[of target] link.prems(2) show ?thesis by simp
    next
      fix target e st1
      assume "follow_links d net uj root prev (href # links) st = Raised e st1"
      then show ?thesis by simp
    next
      fix target st1
      assume a: "\<not> has_node (website_graph st) (JStr target)"
        "website_to_graph d net uj root target target st = Returned st1"
        "follow_links d net uj root prev (href # links) st =
         (case add_weighted_edge (website_graph st1) (JStr prev) (JStr target) of
            Inl e \<Rightarrow> Raised e st1
          | Inr G \<Rightarrow> follow_links d net uj root prev links (st1\<lparr>website_graph := G\<rparr>))"
      from a crawl_keeps(1)[of d net uj root target target st st1]
      have k1: "keeps (website_graph st) (website_graph st1)" by simp
      show ?thesis
      proof (cases "add_weighted_edge (website_graph st1) (JStr prev) (JStr target)")
        case (Inl e)
        with a show ?thesis by simp
      next
        case (Inr G)
        from k1 keeps_add_weighted_edge[OF Inr] have "keeps (website_graph st) G"
          by (rule keeps_trans)
        from unvisited_keeps[OF U(1) this] link.prems(2)
        have "card (unvisited U G) \<le> d" by simp
        with link.IH(2)[of "st1\<lparr>website_graph := G\<rparr>"] rest a Inr show ?thesis by simp
      qed
    next
      fix target
      assume a: "has_node (website_graph st) (JStr target)"
        "follow_links d net uj root prev (href # links) st =
         (case add_weighted_edge (website_graph st) (JStr prev) (JStr target) of
            Inl e \<Rightarrow> Raised e st
          | Inr G \<Rightarrow> follow_links d net uj root prev links (st\<lparr>website_graph := G\<rparr>))"
      show ?thesis
      proof (cases "add_weighted_edge (website_graph st) (JStr prev) (JStr target)")
        case (Inl e)
        with a show ?thesis by simp
      next
        case (Inr G)
        from unvisited_keeps[OF U(1) keeps_add_weighted_edge[OF Inr]] link.prems(2)
        have "card (unvisited U G) \<le> d" by simp
        with link.IH(2)[of "st\<lparr>website_graph := G\<rparr>"] rest a Inr show ?thesis by simp
      qed
    qed
  qed
qed

lemma crawl_terminates_aux:
  assumes U: "finite U" "links_within net uj root U" and d: "card U < d"
  shows "\<not> ran_out (website_to_graph d net uj root prev new st)"
proof -
  from d obtain k where k: "d = Suc k" "card U \<le> k" by (cases d) auto
  show ?thesis
    unfolding k(1)
  proof (rule website_to_graph_Suc_cases[of k net uj root prev new st])
    assume "website_to_graph (Suc k) net uj root prev new st =
      Returned (st\<lparr>visited := visited st @ [new], requested := requested st @ [new]\<rparr>)"
    then show "\<not> ran_out (website_to_graph (Suc k) net uj root prev new st)" by simp
  next
    fix e assume "website_to_graph (Suc k) net uj root prev new st =
         Raised e (st\<lparr>visited := visited st @ [new], requested := requested st @ [new, new],
           extracted := extracted st @ [new]\<rparr>)"
    then show "\<not> ran_out (website_to_graph (Suc k) net uj root prev new st)" by simp
  next
    fix status_code and soup :: page and t
    let ?G1 = "(website_graph st)\<lparr>node_dict :=
                AList.update (JStr new) (Some (JStr t)) (node_dict (website_graph st))\<rparr>"
    let ?st1 = "st\<lparr>visited := visited st @ [new], requested := requested st @ [new, new],
              extracted := extracted st @ [new, new],
              website_graph := ?G1\<rparr>"
    assume net: "net (requested st) new = Response status_code soup"
      and eq: "website_to_graph (Suc k) net uj root prev new st =
         follow_links k net uj root prev (hrefs soup) ?st1"
    from net U(2) have "\<forall>href\<in>set (hrefs soup). startswith href ''/'' \<and> href \<noteq> ''/'' \<longrightarrow> (\<forall>target. uj root href = Inr target \<longrightarrow> target \<in> U)"
      unfolding links_within_def by blast
    moreover have "card (unvisited U ?G1) \<le> card U"
      using U(1) by (intro card_mono) (auto simp: unvisited_def)
    ultimately show "\<not> ran_out (website_to_graph (Suc k) net uj root prev new st)"
      using enough_fuel(2)[OF U, of "hrefs soup" ?st1 k prev] eq k(2) by simp
  qed
qed


lemma cyclic_site_within:
  "links_within cyclic_site simple_urljoin ''http://s'' {''http://s/a'', ''http://s/b''}"
  by (auto simp: links_within_def cyclic_site_def simple_urljoin_def startswith_def split: if_splits)

text \<open>
  C7.  On a finite site the crawl terminates, cycles or not: if every followed link of
  every page the site can serve resolves into a finite set \<open>U\<close> of URLs, then at every
  recursion depth above the size of \<open>U\<close> the call ends (it returns or raises), from
  every state and for every answer the network gives.  The reason is the one the claim
  gives: a call recurses only into a URL that is not a node, and the URL is a node
  before the call's own links are followed, so the URLs of \<open>U\<close> that are not nodes get
  fewer with every level.  On the cyclic site the crawl returns, and the edge from
  \<^verbatim>\<open>/b\<close> back to \<^verbatim>\<open>/a\<close> is there with weight 1.
\<close>

theorem crawl_terminates:
  "(finite U \<and> links_within net uj root U \<and> card U < d \<longrightarrow>
      \<not> ran_out (website_to_graph d net uj root prev new st))
   \<and> website_to_graph (Suc (Suc (Suc k))) cyclic_site simple_urljoin
         ''http://s'' ''http://s'' ''http://s'' fresh_crawl =
       Returned
         \<lparr>visited = [''http://s'', ''http://s/a'', ''http://s/b''],
          requested = [''http://s'', ''http://s'', ''http://s/a'', ''http://s/a'',
                       ''http://s/b'', ''http://s/b''],
          extracted = [''http://s'', ''http://s'', ''http://s/a'', ''http://s/a'',
                       ''http://s/b'', ''http://s/b''],
          website_graph =
            \<lparr>node_dict = [(JStr ''http://s'', Some (JStr [])),
                          (JStr ''http://s/a'', Some (JStr [])),
                          (JStr ''http://s/b'', Some (JStr []))],
             edge_dict = [((JStr ''http://s/b'', JStr ''http://s/a''), Some 1),
                          ((JStr ''http://s/a'', JStr ''http://s/b''), Some 1),
                          ((JStr ''http://s'', JStr ''http://s/a''), Some 1)]\<rparr>\<rparr>"
proof -
  have "website_to_graph (Suc (Suc (Suc k))) cyclic_site simple_urljoin
         ''http://s'' ''http://s'' ''http://s'' fresh_crawl =
       Returned
         \<lparr>visited = [''http://s'', ''http://s/a'', ''http://s/b''],
          requested = [''http://s'', ''http://s'', ''http://s/a'', ''http://s/a'',
                       ''http://s/b'', ''http://s/b''],
          extracted = [''http://s'', ''http://s'', ''http://s/a'', ''http://s/a'',
                       ''http://s/b'', ''http://s/b''],
          website_graph =
            \<lparr>node_dict = [(JStr ''http://s'', Some (JStr [])),
                          (JStr ''http://s/a'', Some (JStr [])),
                          (JStr ''http://s/b'', Some (JStr []))],
             edge_dict = [((JStr ''http://s/b'', JStr ''http://s/a''), Some 1),
                          ((JStr ''http://s/a'', JStr ''http://s/b''), Some 1),
                          ((JStr ''http://s'', JStr ''http://s/a''), Some 1)]\<rparr>\<rparr>"
    by (simp add: crawl_defs cyclic_site_def)
  with crawl_terminates_aux[of U net uj root d prev new st] show ?thesis by blast
qed

theorem crawl_terminates_witness:
  "finite {''http://s/a'', ''http://s/b''}
   \<and> links_within cyclic_site simple_urljoin ''http://s'' {''http://s/a'', ''http://s/b''}
   \<and> card {''http://s/a'', ''http://s/b''} < (3::nat)
   \<and> \<not> ran_out
         (website_to_graph 3 cyclic_site simple_urljoin ''http://s'' ''http://s'' ''http://s'' fresh_crawl)"
  using crawl_terminates[of "{''http://s/a'', ''http://s/b''}" cyclic_site simple_urljoin
      "''http://s''" 3 "''http://s''" "''http://s''" fresh_crawl] cyclic_site_within
  by simp

lemma counts_kept_refl: "logged st \<Longrightarrow> counts_kept st st"
  unfolding counts_kept_def logged_def
  by (metis UnCI count_list_0_iff zero_le)

lemma counts_kept_trans:
  assumes "counts_kept st st1" "keeps (website_graph st) (website_graph st2)"
    "visited st2 = visited st1" "requested st2 = requested st1" "extracted st2 = extracted st1"
    "counts_kept st2 st'"
  shows "counts_kept st st'"
  unfolding counts_kept_def
proof
  fix u
  show "(has_node (website_graph st) (JStr u) \<longrightarrow>
           count_list (visited st') u = count_list (visited st) u
           \<and> count_list (requested st') u = count_list (requested st) u
           \<and> count_list (extracted st') u = count_list (extracted st) u)
      \<and> (\<not> has_node (website_graph st) (JStr u) \<longrightarrow>
           count_list (visited st') u \<le> 1
           \<and> count_list (requested st') u \<le> 2
           \<and> count_list (extracted st') u \<le> 2)"
  proof (cases "has_node (website_graph st) (JStr u)")
    case True
    with assms keeps_has_node[OF assms(2), of "JStr u"] show ?thesis
      by (simp add: counts_kept_def)
  next
    case False
    with assms show ?thesis
      by (cases "has_node (website_graph st2) (JStr u)") (simp_all add: counts_kept_def)
  qed
qed

lemma no_dangling_add_node:
  "no_dangling G \<Longrightarrow> no_dangling (G\<lparr>node_dict := AList.update n a (node_dict G)\<rparr>)"
  by (auto simp: no_dangling_def has_edge_def)

lemma keeps_no_dangling: "keeps G G' \<Longrightarrow> no_dangling G \<Longrightarrow> no_dangling G'"
  by (simp add: keeps_def)

text \<open>What the loop needs of the state it starts in, and what a visited page's state gives.\<close>

lemma counts_after_visit:
  assumes "logged st" "\<not> has_node (website_graph st) (JStr new)"
    and "counts_kept (st\<lparr>visited := visited st @ [new], requested := requested st @ [new, new],
              extracted := extracted st @ [new, new],
              website_graph := (website_graph st)\<lparr>node_dict :=
                AList.update (JStr new) a (node_dict (website_graph st))\<rparr>\<rparr>) st'"
  shows "counts_kept st st'"
  unfolding counts_kept_def
proof
  fix u
  show "(has_node (website_graph st) (JStr u) \<longrightarrow>
           count_list (visited st') u = count_list (visited st) u
           \<and> count_list (requested st') u = count_list (requested st) u
           \<and> count_list (extracted st') u = count_list (extracted st) u)
      \<and> (\<not> has_node (website_graph st) (JStr u) \<longrightarrow>
           count_list (visited st') u \<le> 1
           \<and> count_list (requested st') u \<le> 2
           \<and> count_list (extracted st') u \<le> 2)"
  proof (cases "has_node (website_graph st) (JStr u)")
    case True
    with assms(2) have "u \<noteq> new" by auto
    with True assms(3) show ?thesis by (simp add: counts_kept_def)
  next
    case False
    with assms(1) have "u \<notin> set (visited st)" "u \<notin> set (requested st)" "u \<notin> set (extracted st)"
      by (auto simp: logged_def)
    then have 0: "count_list (visited st) u = 0" "count_list (requested st) u = 0"
      "count_list (extracted st) u = 0"
      by (simp_all add: count_list_0_iff)
    show ?thesis
    proof (cases "u = new")
      case True
      with assms(3) 0 False show ?thesis by (simp add: counts_kept_def)
    next
      case neq: False
      with assms(3) False show ?thesis by (simp add: counts_kept_def)
    qed
  qed
qed

lemma crawl_counts:
  "logged st \<Longrightarrow> no_dangling (website_graph st) \<Longrightarrow> \<not> has_node (website_graph st) (JStr new) \<Longrightarrow>
     final_state (website_to_graph d net uj root prev new st) = st' \<Longrightarrow>
     counts_kept st st'
     \<and> (website_to_graph d net uj root prev new st = Returned st' \<longrightarrow>
          (\<forall>u \<in> set (visited st') \<union> set (requested st') \<union> set (extracted st').
             u = new \<or> has_node (website_graph st') (JStr u)))"
  "logged st \<Longrightarrow> no_dangling (website_graph st) \<Longrightarrow>
     final_state (follow_links d net uj root prev links st) = st' \<Longrightarrow>
     counts_kept st st'
     \<and> (follow_links d net uj root prev links st = Returned st' \<longrightarrow> logged st')"
proof (induction d prev new st and d prev links st arbitrary: st' and st' rule: crawl_induct)
  case (out_of_fuel prev new st)
  then show ?case by (auto intro: counts_kept_refl)
next
  case (visit d prev new st)
  have nodes0: "has_node (website_graph st) (JStr u) \<Longrightarrow> u \<noteq> new" for u
    using visit.prems(3) by auto
  have logs0: "\<not> has_node (website_graph st) (JStr u) \<Longrightarrow>
      count_list (visited st) u = 0 \<and> count_list (requested st) u = 0
      \<and> count_list (extracted st) u = 0" for u
    using visit.prems(1) by (auto simp: logged_def count_list_0_iff)
  show ?case
  proof (rule website_to_graph_Suc_cases[of d net uj root prev new st])
    assume eq: "website_to_graph (Suc d) net uj root prev new st =
      Returned (st\<lparr>visited := visited st @ [new], requested := requested st @ [new]\<rparr>)"
    with visit.prems(4)
    have st': "st' = st\<lparr>visited := visited st @ [new], requested := requested st @ [new]\<rparr>"
      by auto
    have "counts_kept st st'"
      unfolding counts_kept_def st' using nodes0 logs0 by auto
    moreover have "\<forall>u \<in> set (visited st') \<union> set (requested st') \<union> set (extracted st').
             u = new \<or> has_node (website_graph st') (JStr u)"
      using visit.prems(1) by (auto simp: st' logged_def)
    ultimately show ?thesis by blast
  next
    fix e assume eq: "website_to_graph (Suc d) net uj root prev new st =
         Raised e (st\<lparr>visited := visited st @ [new], requested := requested st @ [new, new],
           extracted := extracted st @ [new]\<rparr>)"
    with visit.prems(4)
    have st': "st' = st\<lparr>visited := visited st @ [new], requested := requested st @ [new, new],
           extracted := extracted st @ [new]\<rparr>"
      by auto
    have "counts_kept st st'"
      unfolding counts_kept_def st' using nodes0 logs0 by auto
    with eq show ?thesis by simp
  next
    fix status_code and soup :: page and t
    let ?G1 = "(website_graph st)\<lparr>node_dict :=
                AList.update (JStr new) (Some (JStr t)) (node_dict (website_graph st))\<rparr>"
    let ?st1 = "st\<lparr>visited := visited st @ [new], requested := requested st @ [new, new],
              extracted := extracted st @ [new, new],
              website_graph := ?G1\<rparr>"
    assume eq: "website_to_graph (Suc d) net uj root prev new st =
         follow_links d net uj root prev (hrefs soup) ?st1"
    have l1: "logged ?st1" using visit.prems(1) by (auto simp: logged_def)
    have n1: "no_dangling (website_graph ?st1)"
      using visit.prems(2) by (simp add: no_dangling_add_node)
    from visit.IH[OF l1 n1, of "hrefs soup" st'] visit.prems(4) eq
    have ih: "counts_kept ?st1 st'"
      "follow_links d net uj root prev (hrefs soup) ?st1 = Returned st' \<longrightarrow> logged st'"
      by simp_all
    from counts_after_visit[OF visit.prems(1,3) ih(1)] ih(2) eq show ?thesis
      by (auto simp: logged_def)
  qed
next
  case (no_links d prev st)
  then show ?case by (auto intro: counts_kept_refl)
next
  case (link d prev href links st)
  show ?case
  proof (cases "startswith href ''/'' \<and> href \<noteq> ''/''")
    case False
    show ?thesis
    proof (cases "uj root href")
      case (Inl e)
      with link.prems(3) counts_kept_refl[OF link.prems(1)] show ?thesis
        unfolding follow_links_skip[OF False] by auto
    next
      case (Inr target)
      with link.IH(2)[OF link.prems(1,2), of st'] link.prems(3)
      show ?thesis unfolding follow_links_skip[OF False] by simp
    qed
  next
    case True
    show ?thesis
    proof (rule follow_links_Cons_cases[OF True, of uj root d net prev links st])
      fix e
      assume "follow_links d net uj root prev (href # links) st = Raised e st"
      with link.prems(3) counts_kept_refl[OF link.prems(1)] show ?thesis by auto
    next
      fix target st1
      assume a: "\<not> has_node (website_graph st) (JStr target)"
        "website_to_graph d net uj root target target st = OutOfFuel st1"
        "follow_links d net uj root prev (href # links) st = OutOfFuel st1"
      with link.prems(3) have "st' = st1" by auto
      with a link.IH(1)[OF link.prems(1,2) a(1), of st1] show ?thesis by simp
    next
      fix target e st1
      assume a: "\<not> has_node (website_graph st) (JStr target)"
        "website_to_graph d net uj root target target st = Raised e st1"
        "follow_links d net uj root prev (href # links) st = Raised e st1"
      with link.prems(3) have "st' = st1" by auto
      with a link.IH(1)[OF link.prems(1,2) a(1), of st1] show ?thesis by simp
    next
      fix target st1
      assume a: "\<not> has_node (website_graph st) (JStr target)"
        "website_to_graph d net uj root target target st = Returned st1"
        "follow_links d net uj root prev (href # links) st =
         (case add_weighted_edge (website_graph st1) (JStr prev) (JStr target) of
            Inl e \<Rightarrow> Raised e st1
          | Inr G \<Rightarrow> follow_links d net uj root prev links (st1\<lparr>website_graph := G\<rparr>))"
      from a link.IH(1)[OF link.prems(1,2) a(1), of st1]
      have c1: "counts_kept st st1"
        and l1: "\<forall>u \<in> set (visited st1) \<union> set (requested st1) \<union> set (extracted st1).
             u = target \<or> has_node (website_graph st1) (JStr u)"
        by simp_all
      from a crawl_keeps(1)[of d net uj root target target st st1]
      have k1: "keeps (website_graph st) (website_graph st1)" by simp
      show ?thesis
      proof (cases "add_weighted_edge (website_graph st1) (JStr prev) (JStr target)")
        case (Inl e)
        with a link.prems(3) c1 show ?thesis by auto
      next
        case (Inr G)
        let ?st2 = "st1\<lparr>website_graph := G\<rparr>"
        have k2: "keeps (website_graph st1) G" by (rule keeps_add_weighted_edge[OF Inr])
        have nd1: "no_dangling (website_graph st1)"
          using k1 link.prems(2) by (rule keeps_no_dangling)
        have l2: "logged ?st2"
          unfolding logged_def
        proof
          fix u assume "u \<in> set (visited ?st2) \<union> set (requested ?st2) \<union> set (extracted ?st2)"
          with l1 have "u = target \<or> has_node (website_graph st1) (JStr u)" by simp
          then show "has_node (website_graph ?st2) (JStr u)"
            using add_weighted_edge_nodes(2)[OF Inr nd1] keeps_has_node[OF k2] by auto
        qed
        have nd2: "no_dangling (website_graph ?st2)"
          using keeps_no_dangling[OF k2 nd1] by simp
        from link.IH(2)[OF l2 nd2, of st'] a Inr link.prems(3)
        have ih: "counts_kept ?st2 st'"
          "follow_links d net uj root prev links ?st2 = Returned st' \<longrightarrow> logged st'"
          by simp_all
        have "counts_kept st st'"
          using c1 _ _ _ _ ih(1)
        proof (rule counts_kept_trans)
          show "keeps (website_graph st) (website_graph ?st2)"
            using keeps_trans[OF k1 k2] by simp
        qed simp_all
        with ih(2) a Inr show ?thesis by simp
      qed
    next
      fix target
      assume a: "has_node (website_graph st) (JStr target)"
        "follow_links d net uj root prev (href # links) st =
         (case add_weighted_edge (website_graph st) (JStr prev) (JStr target) of
            Inl e \<Rightarrow> Raised e st
          | Inr G \<Rightarrow> follow_links d net uj root prev links (st\<lparr>website_graph := G\<rparr>))"
      show ?thesis
      proof (cases "add_weighted_edge (website_graph st) (JStr prev) (JStr target)")
        case (Inl e)
        with a link.prems(3) counts_kept_refl[OF link.prems(1)] show ?thesis by auto
      next
        case (Inr G)
        let ?st2 = "st\<lparr>website_graph := G\<rparr>"
        have k2: "keeps (website_graph st) G" by (rule keeps_add_weighted_edge[OF Inr])
        have l2: "logged ?st2"
          using link.prems(1) keeps_has_node[OF k2] by (auto simp: logged_def)
        have nd2: "no_dangling (website_graph ?st2)"
          using keeps_no_dangling[OF k2 link.prems(2)] by simp
        from link.IH(2)[OF l2 nd2, of st'] a Inr link.prems(3)
        have ih: "counts_kept ?st2 st'"
          "follow_links d net uj root prev links ?st2 = Returned st' \<longrightarrow> logged st'"
          by simp_all
        have "counts_kept st st'"
          using counts_kept_refl[OF link.prems(1)] _ _ _ _ ih(1)
        proof (rule counts_kept_trans)
          show "keeps (website_graph st) (website_graph ?st2)" using k2 by simp
        qed simp_all
        with ih(2) a Inr show ?thesis by simp
      qed
    qed
  qed
qed

lemma counts_keptD:
  assumes "counts_kept st st'"
  shows "count_list (visited st') u \<le> max 1 (count_list (visited st) u)
     \<and> count_list (requested st') u \<le> max 2 (count_list (requested st) u)
     \<and> count_list (extracted st') u \<le> max 2 (count_list (extracted st) u)"
proof -
  from assms have
    "(has_node (website_graph st) (JStr u) \<longrightarrow>
        count_list (visited st') u = count_list (visited st) u
        \<and> count_list (requested st') u = count_list (requested st) u
        \<and> count_list (extracted st') u = count_list (extracted st) u)
     \<and> (\<not> has_node (website_graph st) (JStr u) \<longrightarrow>
        count_list (visited st') u \<le> 1
        \<and> count_list (requested st') u \<le> 2
        \<and> count_list (extracted st') u \<le> 2)"
    unfolding counts_kept_def by (rule spec)
  then show ?thesis
    by (cases "has_node (website_graph st) (JStr u)") (auto simp: max_def)
qed

text \<open>
  C3, as the code has it.  The claim fails on the site of one page: the page is
  requested twice, by \<^verbatim>\<open>website_to_graph\<close> (line 35) and by \<^verbatim>\<open>get_main_text\<close> (line 73),
  and its text is extracted twice, from the first response (line 44) and from the second
  (lines 80-82).
\<close>

theorem one_page_requested_twice:
  "count_list
     (requests_of (website_to_graph 1 one_page_site simple_urljoin
        ''http://s'' ''http://s'' ''http://s'' fresh_crawl))
     ''http://s'' = 2
   \<and> count_list
     (extractions_of (website_to_graph 1 one_page_site simple_urljoin
        ''http://s'' ''http://s'' ''http://s'' fresh_crawl))
     ''http://s'' = 2"
  by (simp add: crawl_defs one_page_site_def requests_of_def extractions_of_def)

text \<open>
  C3, amended.  In a single crawl (nothing visited, requested or extracted before it,
  on a graph without dangling edges) \<^verbatim>\<open>website_to_graph\<close> is called at most once for
  every URL, whatever the site links to and however the crawl ends; since a call
  requests its URL at most twice and extracts text from it at most twice, every URL is
  requested at most twice and has text extracted at most twice.
\<close>

theorem each_url_visited_at_most_once:
  assumes "visited st = []" "requested st = []" "extracted st = []"
    "no_dangling (website_graph st)"
  shows "count_list (visits_of (website_to_graph d net uj root prev new st)) u \<le> 1
       \<and> count_list (requests_of (website_to_graph d net uj root prev new st)) u \<le> 2
       \<and> count_list (extractions_of (website_to_graph d net uj root prev new st)) u \<le> 2"
proof (cases d)
  case 0
  with assms show ?thesis by (simp add: visits_of_def requests_of_def extractions_of_def)
next
  case (Suc k)
  show ?thesis
    unfolding Suc
  proof (rule website_to_graph_Suc_cases[of k net uj root prev new st])
    assume "website_to_graph (Suc k) net uj root prev new st =
      Returned (st\<lparr>visited := visited st @ [new], requested := requested st @ [new]\<rparr>)"
    with assms show "count_list (visits_of (website_to_graph (Suc k) net uj root prev new st)) u \<le> 1
       \<and> count_list (requests_of (website_to_graph (Suc k) net uj root prev new st)) u \<le> 2
       \<and> count_list (extractions_of (website_to_graph (Suc k) net uj root prev new st)) u \<le> 2"
      by (simp add: visits_of_def requests_of_def extractions_of_def)
  next
    fix e assume "website_to_graph (Suc k) net uj root prev new st =
         Raised e (st\<lparr>visited := visited st @ [new], requested := requested st @ [new, new],
           extracted := extracted st @ [new]\<rparr>)"
    with assms show "count_list (visits_of (website_to_graph (Suc k) net uj root prev new st)) u \<le> 1
       \<and> count_list (requests_of (website_to_graph (Suc k) net uj root prev new st)) u \<le> 2
       \<and> count_list (extractions_of (website_to_graph (Suc k) net uj root prev new st)) u \<le> 2"
      by (simp add: visits_of_def requests_of_def extractions_of_def)
  next
    fix status_code and soup :: page and t
    let ?G1 = "(website_graph st)\<lparr>node_dict :=
                AList.update (JStr new) (Some (JStr t)) (node_dict (website_graph st))\<rparr>"
    let ?st1 = "st\<lparr>visited := visited st @ [new], requested := requested st @ [new, new],
              extracted := extracted st @ [new, new],
              website_graph := ?G1\<rparr>"
    let ?r = "follow_links k net uj root prev (hrefs soup) ?st1"
    assume eq: "website_to_graph (Suc k) net uj root prev new st = ?r"
    have l1: "logged ?st1" using assms by (simp add: logged_def)
    have n1: "no_dangling (website_graph ?st1)"
      using assms(4) by (simp add: no_dangling_add_node)
    from crawl_counts(2)[OF l1 n1 refl] have "counts_kept ?st1 (final_state ?r)" by simp
    from counts_keptD[OF this, of u]
    have "count_list (visited (final_state ?r)) u \<le> 1
       \<and> count_list (requested (final_state ?r)) u \<le> 2
       \<and> count_list (extracted (final_state ?r)) u \<le> 2"
      using assms(1,2,3) by simp
    with eq show "count_list (visits_of (website_to_graph (Suc k) net uj root prev new st)) u \<le> 1
       \<and> count_list (requests_of (website_to_graph (Suc k) net uj root prev new st)) u \<le> 2
       \<and> count_list (extractions_of (website_to_graph (Suc k) net uj root prev new st)) u \<le> 2"
      by (simp add: visits_of_def requests_of_def extractions_of_def)
  qed
qed

theorem each_url_visited_at_most_once_witness:
  "visited fresh_crawl = [] \<and> requested fresh_crawl = [] \<and> extracted fresh_crawl = []
   \<and> no_dangling (website_graph fresh_crawl)
   \<and> count_list (visits_of (website_to_graph 3 cyclic_site simple_urljoin
        ''http://s'' ''http://s'' ''http://s'' fresh_crawl)) ''http://s/a'' \<le> 1
   \<and> count_list (requests_of (website_to_graph 3 cyclic_site simple_urljoin
        ''http://s'' ''http://s'' ''http://s'' fresh_crawl)) ''http://s/a'' \<le> 2
   \<and> count_list (extractions_of (website_to_graph 3 cyclic_site simple_urljoin
        ''http://s'' ''http://s'' ''http://s'' fresh_crawl)) ''http://s/a'' \<le> 2"
proof -
  have 1: "visited fresh_crawl = []" and 2: "requested fresh_crawl = []"
    and 3: "extracted fresh_crawl = []"
    by (simp_all add: fresh_crawl_def)
  have 4: "no_dangling (website_graph fresh_crawl)"
    by (simp add: fresh_crawl_def DiGraph_def no_dangling_def has_edge_def)
  from each_url_visited_at_most_once[OF 1 2 3 4] 1 2 3 4 show ?thesis by blast
qed

lemma bumped_0 [simp]: "bumped a 0 = a"
  by (simp add: bumped_def)

lemma bumped_Suc:
  "a \<noteq> Some None \<Longrightarrow>
     bumped (Some (Some (case a of Some (Some w) \<Rightarrow> w + 1 | _ \<Rightarrow> 1))) n = bumped a (Suc n)"
  by (auto simp: bumped_def split: option.splits)

lemma links_to_Nil [simp]: "links_to uj root target [] = 0"
  by (simp add: links_to_def)

lemma links_to_Cons:
  "links_to uj root target (href # links) =
     (if (startswith href ''/'' \<and> href \<noteq> ''/'') \<and> uj root href = Inr target then Suc (links_to uj root target links)
      else links_to uj root target links)"
  by (simp add: links_to_def)

lemma add_weighted_edge_weighted:
  "add_weighted_edge G (JStr s) (JStr t) = Inr G' \<Longrightarrow> map_of (edge_dict G) (JStr s, JStr t) \<noteq> Some None"
  by (auto simp: add_weighted_edge_def has_edge_def split: if_splits option.splits)

lemma page_edges_counted_cong:
  assumes "page_edges_counted net uj root G S"
    and "\<And>T. map_of (edge_dict G') (JStr S, JStr T) = map_of (edge_dict G) (JStr S, JStr T)"
  shows "page_edges_counted net uj root G' S"
  using assms unfolding page_edges_counted_def by simp

lemma has_text_node: "has_text G u \<Longrightarrow> has_node G (JStr u)"
  by (auto simp: has_text_def has_node_def)

lemma keeps_has_text: "keeps G G' \<Longrightarrow> has_node G (JStr u) \<Longrightarrow> has_text G' u = has_text G u"
  by (simp add: keeps_def has_text_def)

lemma no_dangling_no_edge:
  "no_dangling G \<Longrightarrow> \<not> has_node G s \<Longrightarrow> map_of (edge_dict G) (s, t) = None"
  by (cases "map_of (edge_dict G) (s, t)") (auto simp: no_dangling_def has_edge_def)

lemma links_to_skip:
  "\<not> (startswith href ''/'' \<and> href \<noteq> ''/'') \<Longrightarrow>
     links_to uj root target (href # links) = links_to uj root target links"
  by (cases "startswith href ''/''") (simp_all add: links_to_def)

text \<open>What one round of the loop does to the edges, when it adds one.\<close>

lemma add_weighted_edge_round:
  assumes awe: "add_weighted_edge G1 (JStr prev) (JStr Tg) = Inr G2"
  shows "map_of (edge_dict G2) (JStr S, JStr T) =
           (if S = prev \<and> T = Tg then bumped (map_of (edge_dict G1) (JStr prev, JStr Tg)) 1
            else map_of (edge_dict G1) (JStr S, JStr T))"
  using add_weighted_edge_edges[OF awe] add_weighted_edge_weighted[OF awe]
  by (auto simp: bumped_def split: option.splits)

lemma bumped_bumped:
  "a \<noteq> Some None \<Longrightarrow> bumped (bumped a (Suc 0)) n = bumped a (Suc n)"
  by (auto simp: bumped_def split: option.splits)

lemma crawl_weights:
  "prev = new \<Longrightarrow> \<not> has_node (website_graph st) (JStr new) \<Longrightarrow> no_dangling (website_graph st) \<Longrightarrow>
     website_to_graph d net uj root prev new st = Returned st' \<Longrightarrow>
     (\<forall>S T. has_node (website_graph st) (JStr S) \<longrightarrow>
        map_of (edge_dict (website_graph st')) (JStr S, JStr T) =
        map_of (edge_dict (website_graph st)) (JStr S, JStr T))
     \<and> (\<forall>S. \<not> has_node (website_graph st) (JStr S) \<and> has_text (website_graph st') S \<longrightarrow>
          page_edges_counted net uj root (website_graph st') S)"
  "has_node (website_graph st) (JStr prev) \<Longrightarrow> no_dangling (website_graph st) \<Longrightarrow>
     follow_links d net uj root prev links st = Returned st' \<Longrightarrow>
     (\<forall>S T. has_node (website_graph st) (JStr S) \<and> S \<noteq> prev \<longrightarrow>
        map_of (edge_dict (website_graph st')) (JStr S, JStr T) =
        map_of (edge_dict (website_graph st)) (JStr S, JStr T))
     \<and> (\<forall>T. map_of (edge_dict (website_graph st')) (JStr prev, JStr T) =
          bumped (map_of (edge_dict (website_graph st)) (JStr prev, JStr T)) (links_to uj root T links))
     \<and> (\<forall>S. \<not> has_node (website_graph st) (JStr S) \<and> has_text (website_graph st') S \<longrightarrow>
          page_edges_counted net uj root (website_graph st') S)"
proof (induction d prev new st and d prev links st arbitrary: st' and st' rule: crawl_induct)
  case (out_of_fuel prev new st)
  then show ?case by simp
next
  case (visit d prev new st)
  let ?G = "website_graph st"
  show ?case
  proof (rule website_to_graph_Suc_cases[of d net uj root prev new st])
    assume "website_to_graph (Suc d) net uj root prev new st =
      Returned (st\<lparr>visited := visited st @ [new], requested := requested st @ [new]\<rparr>)"
    with visit.prems(4) have "website_graph st' = ?G" by auto
    then show ?thesis by (auto dest: has_text_node)
  next
    fix e assume "website_to_graph (Suc d) net uj root prev new st =
         Raised e (st\<lparr>visited := visited st @ [new], requested := requested st @ [new, new],
           extracted := extracted st @ [new]\<rparr>)"
    with visit.prems(4) show ?thesis by simp
  next
    fix status_code and soup :: page and t
    let ?G1 = "?G\<lparr>node_dict := AList.update (JStr new) (Some (JStr t)) (node_dict ?G)\<rparr>"
    let ?st1 = "st\<lparr>visited := visited st @ [new], requested := requested st @ [new, new],
              extracted := extracted st @ [new, new],
              website_graph := ?G1\<rparr>"
    assume net: "net (requested st) new = Response status_code soup"
      "\<not> (400 \<le> status_code \<and> status_code < 600)"
      and eq: "website_to_graph (Suc d) net uj root prev new st =
         follow_links d net uj root prev (hrefs soup) ?st1"
    have pre1: "has_node (website_graph ?st1) (JStr prev)" using visit.prems(1) by simp
    have nd1: "no_dangling (website_graph ?st1)"
      using visit.prems(3) by (simp add: no_dangling_add_node)
    from eq visit.prems(4) have ret: "follow_links d net uj root prev (hrefs soup) ?st1 = Returned st'"
      by simp
    note ih = visit.IH[OF pre1 nd1 ret]
    have frame: "map_of (edge_dict (website_graph st')) (JStr S, JStr T) =
        map_of (edge_dict ?G) (JStr S, JStr T)" if "has_node ?G (JStr S)" for S T
    proof -
      from that visit.prems(2) have "S \<noteq> new" by auto
      with that ih visit.prems(1) show ?thesis by simp
    qed
    have counted: "page_edges_counted net uj root (website_graph st') S"
      if "\<not> has_node ?G (JStr S)" "has_text (website_graph st') S" for S
    proof (cases "S = new")
      case True
      have "map_of (edge_dict (website_graph st')) (JStr new, JStr T) =
              bumped None (links_to uj root T (hrefs soup))" for T
        using ih visit.prems(1) no_dangling_no_edge[OF visit.prems(3) visit.prems(2), of "JStr T"]
        by simp
      with net True show ?thesis
        unfolding page_edges_counted_def by blast
    next
      case False
      with that ih show ?thesis by simp
    qed
    from frame counted show ?thesis by blast
  qed
next
  case (no_links d prev st)
  then show ?case by (auto dest: has_text_node)
next
  case (link d prev href links st)
  let ?G = "website_graph st"
  show ?case
  proof (cases "startswith href ''/'' \<and> href \<noteq> ''/''")
    case False
    from link.prems(3) have "follow_links d net uj root prev links st = Returned st'"
      unfolding follow_links_skip[OF False] by (cases "uj root href") simp_all
    from link.IH(2)[OF link.prems(1,2) this] show ?thesis
      unfolding links_to_skip[OF False] .
  next
    case True
    have round: "?thesis"
      if uj: "uj root href = Inr Tg"
        and k1: "keeps ?G (website_graph st1)"
        and f1: "\<And>S T. has_node ?G (JStr S) \<Longrightarrow>
          map_of (edge_dict (website_graph st1)) (JStr S, JStr T) = map_of (edge_dict ?G) (JStr S, JStr T)"
        and c1: "\<And>S. \<not> has_node ?G (JStr S) \<Longrightarrow> has_text (website_graph st1) S \<Longrightarrow>
          page_edges_counted net uj root (website_graph st1) S"
        and res: "(case add_weighted_edge (website_graph st1) (JStr prev) (JStr Tg) of
            Inl e \<Rightarrow> Raised e st1
          | Inr G \<Rightarrow> follow_links d net uj root prev links (st1\<lparr>website_graph := G\<rparr>)) = Returned st'"
      for Tg st1
    proof (cases "add_weighted_edge (website_graph st1) (JStr prev) (JStr Tg)")
      case (Inl e)
      with res show ?thesis by simp
    next
      case (Inr G2)
      let ?G1 = "website_graph st1"
      let ?st2 = "st1\<lparr>website_graph := G2\<rparr>"
      have k2: "keeps ?G1 G2" by (rule keeps_add_weighted_edge[OF Inr])
      have k02: "keeps ?G G2" using k1 k2 by (rule keeps_trans)
      have pre2: "has_node (website_graph ?st2) (JStr prev)"
        using keeps_has_node[OF k02 link.prems(1)] by simp
      have nd2: "no_dangling (website_graph ?st2)"
        using keeps_no_dangling[OF k02 link.prems(2)] by simp
      from res Inr have ret: "follow_links d net uj root prev links ?st2 = Returned st'" by simp
      note ih = link.IH(2)[OF pre2 nd2 ret]
      from ret have k2': "keeps G2 (website_graph st')"
        using crawl_keeps(2)[of d net uj root prev links ?st2 st'] by simp
      note e2 = add_weighted_edge_round[OF Inr]
      have a: "map_of (edge_dict (website_graph st')) (JStr S, JStr T) =
          map_of (edge_dict ?G) (JStr S, JStr T)" if "has_node ?G (JStr S)" "S \<noteq> prev" for S T
      proof -
        from that keeps_has_node[OF k02] have "has_node G2 (JStr S)" by simp
        with that ih have "map_of (edge_dict (website_graph st')) (JStr S, JStr T) =
          map_of (edge_dict G2) (JStr S, JStr T)" by simp
        also have "\<dots> = map_of (edge_dict ?G1) (JStr S, JStr T)" using e2 that by simp
        also have "\<dots> = map_of (edge_dict ?G) (JStr S, JStr T)" using f1 that by simp
        finally show ?thesis .
      qed
      have b: "map_of (edge_dict (website_graph st')) (JStr prev, JStr T) =
          bumped (map_of (edge_dict ?G) (JStr prev, JStr T)) (links_to uj root T (href # links))" for T
      proof -
        have "map_of (edge_dict (website_graph st')) (JStr prev, JStr T) =
            bumped (map_of (edge_dict G2) (JStr prev, JStr T)) (links_to uj root T links)"
          using ih by simp
        moreover have "map_of (edge_dict ?G1) (JStr prev, JStr T) = map_of (edge_dict ?G) (JStr prev, JStr T)" for T
          using f1 link.prems(1) by simp
        moreover have "map_of (edge_dict ?G1) (JStr prev, JStr Tg) \<noteq> Some None"
          by (rule add_weighted_edge_weighted[OF Inr])
        ultimately show ?thesis
          using e2[of prev T] True uj by (auto simp: links_to_Cons bumped_bumped)
      qed
      have c: "page_edges_counted net uj root (website_graph st') S"
        if "\<not> has_node ?G (JStr S)" "has_text (website_graph st') S" for S
      proof (cases "has_node G2 (JStr S)")
        case False
        with that ih show ?thesis by simp
      next
        case in2: True
        from that(1) link.prems(1) have neq: "S \<noteq> prev" by auto
        from keeps_has_text[OF k2' in2] that(2) have "has_text G2 S" by simp
        then have "has_text ?G1 S"
          using add_weighted_edge_nodes(3)[OF Inr] by (auto simp: has_text_def)
        with c1 that(1) have cnt: "page_edges_counted net uj root ?G1 S" by simp
        show ?thesis
        proof (rule page_edges_counted_cong[OF cnt])
          fix T
          have "map_of (edge_dict (website_graph st')) (JStr S, JStr T) =
            map_of (edge_dict G2) (JStr S, JStr T)" using ih in2 neq by simp
          also have "\<dots> = map_of (edge_dict ?G1) (JStr S, JStr T)" using e2 neq by simp
          finally show "map_of (edge_dict (website_graph st')) (JStr S, JStr T) =
            map_of (edge_dict ?G1) (JStr S, JStr T)" .
        qed
      qed
      from a b c show ?thesis by blast
    qed
    show ?thesis
    proof (rule follow_links_Cons_cases[OF True, of uj root d net prev links st])
      fix e
      assume "follow_links d net uj root prev (href # links) st = Raised e st"
      with link.prems(3) show ?thesis by simp
    next
      fix target st1
      assume "follow_links d net uj root prev (href # links) st = OutOfFuel st1"
      with link.prems(3) show ?thesis by simp
    next
      fix target e st1
      assume "follow_links d net uj root prev (href # links) st = Raised e st1"
      with link.prems(3) show ?thesis by simp
    next
      fix target st1
      assume uj: "uj root href = Inr target"
        and v: "\<not> has_node ?G (JStr target)"
        "website_to_graph d net uj root target target st = Returned st1"
        "follow_links d net uj root prev (href # links) st =
         (case add_weighted_edge (website_graph st1) (JStr prev) (JStr target) of
            Inl e \<Rightarrow> Raised e st1
          | Inr G \<Rightarrow> follow_links d net uj root prev links (st1\<lparr>website_graph := G\<rparr>))"
      note ih1 = link.IH(1)[OF refl v(1) link.prems(2) v(2)]
      show ?thesis
      proof (rule round[of target st1])
        show "uj root href = Inr target" by (rule uj)
        show "keeps ?G (website_graph st1)"
          using crawl_keeps(1)[of d net uj root target target st st1] v by simp
        show "map_of (edge_dict (website_graph st1)) (JStr S, JStr T) = map_of (edge_dict ?G) (JStr S, JStr T)"
          if "has_node ?G (JStr S)" for S T using ih1 that by simp
        show "page_edges_counted net uj root (website_graph st1) S"
          if "\<not> has_node ?G (JStr S)" "has_text (website_graph st1) S" for S using ih1 that by simp
        show "(case add_weighted_edge (website_graph st1) (JStr prev) (JStr target) of
            Inl e \<Rightarrow> Raised e st1
          | Inr G \<Rightarrow> follow_links d net uj root prev links (st1\<lparr>website_graph := G\<rparr>)) = Returned st'"
          using v(3) link.prems(3) by simp
      qed
    next
      fix target
      assume uj: "uj root href = Inr target"
        and k: "has_node ?G (JStr target)"
        "follow_links d net uj root prev (href # links) st =
         (case add_weighted_edge ?G (JStr prev) (JStr target) of
            Inl e \<Rightarrow> Raised e st
          | Inr G \<Rightarrow> follow_links d net uj root prev links (st\<lparr>website_graph := G\<rparr>))"
      show ?thesis
      proof (rule round[of target st])
        show "uj root href = Inr target" by (rule uj)
        show "keeps ?G ?G" by simp
        show "page_edges_counted net uj root ?G S"
          if "\<not> has_node ?G (JStr S)" "has_text ?G S" for S using that by (auto dest: has_text_node)
        show "(case add_weighted_edge ?G (JStr prev) (JStr target) of
            Inl e \<Rightarrow> Raised e st
          | Inr G \<Rightarrow> follow_links d net uj root prev links (st\<lparr>website_graph := G\<rparr>)) = Returned st'"
          using k(2) link.prems(3) by simp
      qed simp
    qed
  qed
qed

lemma filter_key_distinct:
  "distinct (map fst al) \<Longrightarrow>
     length (filter (\<lambda>(e, w). e = k) al) = (if map_of al k = None then 0 else 1)"
proof (induction al)
  case Nil
  then show ?case by simp
next
  case (Cons p al)
  obtain e w where p: "p = (e, w)" by (cases p)
  show ?case
  proof (cases "e = k")
    case True
    with Cons.prems p have "k \<notin> fst ` set al" by auto
    then have "filter (\<lambda>(e, w). e = k) al = []"
      by (force simp: filter_empty_conv)
    with True p show ?thesis by simp
  next
    case False
    with Cons p show ?thesis by simp
  qed
qed

lemma bumped_None: "bumped None n = (if n = 0 then None else Some (Some (int n)))"
  by (simp add: bumped_def)

lemma fresh_crawl_counted:
  assumes fresh: "website_graph st = DiGraph"
    and ret: "website_to_graph d net uj root start start st = Returned st'"
    and page: "has_text (website_graph st') page_url"
  shows "page_edges_counted net uj root (website_graph st') page_url
       \<and> distinct (map fst (edge_dict (website_graph st')))"
proof (cases d)
  case 0
  with ret show ?thesis by simp
next
  case (Suc k)
  show ?thesis
  proof (rule website_to_graph_Suc_cases[of k net uj root start start st])
    assume "website_to_graph (Suc k) net uj root start start st =
      Returned (st\<lparr>visited := visited st @ [start], requested := requested st @ [start]\<rparr>)"
    with ret Suc fresh have "website_graph st' = DiGraph" by auto
    with page show ?thesis by (simp add: has_text_def DiGraph_def)
  next
    fix e assume "website_to_graph (Suc k) net uj root start start st =
         Raised e (st\<lparr>visited := visited st @ [start], requested := requested st @ [start, start],
           extracted := extracted st @ [start]\<rparr>)"
    with ret Suc show ?thesis by simp
  next
    fix status_code and soup :: page and t
    let ?G1 = "(website_graph st)\<lparr>node_dict :=
                 AList.update (JStr start) (Some (JStr t)) (node_dict (website_graph st))\<rparr>"
    let ?st1 = "st\<lparr>visited := visited st @ [start], requested := requested st @ [start, start],
              extracted := extracted st @ [start, start],
              website_graph := ?G1\<rparr>"
    assume net: "net (requested st) start = Response status_code soup"
      "\<not> (400 \<le> status_code \<and> status_code < 600)"
      and eq: "website_to_graph (Suc k) net uj root start start st =
         follow_links k net uj root start (hrefs soup) ?st1"
    from eq ret Suc have ret1: "follow_links k net uj root start (hrefs soup) ?st1 = Returned st'"
      by simp
    have pre1: "has_node (website_graph ?st1) (JStr start)" by simp
    have nd1: "no_dangling (website_graph ?st1)"
      using fresh by (simp add: no_dangling_def has_edge_def DiGraph_def)
    note w = crawl_weights(2)[OF pre1 nd1 ret1]
    have empty: "\<not> has_node (website_graph st) n" for n
      using fresh by (simp add: has_node_def DiGraph_def)
    have edges1: "map_of (edge_dict ?G1) e = None" for e
      using fresh by (simp add: DiGraph_def)
    have "page_edges_counted net uj root (website_graph st') page_url"
    proof (cases "page_url = start")
      case True
      have "map_of (edge_dict (website_graph st')) (JStr start, JStr T) =
              bumped None (links_to uj root T (hrefs soup))" for T
        using w edges1 by simp
      with net True show ?thesis unfolding page_edges_counted_def by blast
    next
      case False
      with empty have "\<not> has_node (website_graph ?st1) (JStr page_url)" by simp
      with w page show ?thesis by blast
    qed
    moreover have "keeps ?G1 (website_graph st')"
      using crawl_keeps(2)[of k net uj root start "hrefs soup" ?st1 st'] ret1 by simp
    then have "distinct (map fst (edge_dict (website_graph st')))"
      using fresh by (simp add: keeps_def DiGraph_def)
    ultimately show ?thesis by simp
  qed
qed

text \<open>
  C4, as the code has it.  The claim fails on an edge without a \<^verbatim>\<open>weight\<close> attribute,
  which is what every edge of a loaded graph is: saving a graph with the edge (/, /a)
  of weight 2 and loading it again gives that edge without weight, and
  \<open>add_weighted_edge\<close> on it raises \<^verbatim>\<open>KeyError\<close> (line 14) instead of incrementing.
\<close>

theorem increment_fails_on_unweighted_edge:
  "json_to_graph
     (graph_to_json
        \<lparr>node_dict = [(JStr ''/'', Some (JStr [])), (JStr ''/a'', Some (JStr []))],
         edge_dict = [((JStr ''/'', JStr ''/a''), Some 2)]\<rparr>
        ''graph.json'' Map.empty)
     ''graph.json''
   = Inr \<lparr>node_dict = [(JStr ''/'', Some (JStr [])), (JStr ''/a'', Some (JStr []))],
          edge_dict = [((JStr ''/'', JStr ''/a''), None)]\<rparr>
   \<and> has_edge
       \<lparr>node_dict = [(JStr ''/'', Some (JStr [])), (JStr ''/a'', Some (JStr []))],
        edge_dict = [((JStr ''/'', JStr ''/a''), None)]\<rparr>
       (JStr ''/'') (JStr ''/a'')
   \<and> add_weighted_edge
       \<lparr>node_dict = [(JStr ''/'', Some (JStr [])), (JStr ''/a'', Some (JStr []))],
        edge_dict = [((JStr ''/'', JStr ''/a''), None)]\<rparr>
       (JStr ''/'') (JStr ''/a'')
     = Inl (KeyError ''weight'')"
  by (simp add: json_to_graph_def graph_to_json_def node_link_data_def DiGraph_def add_node_def
      add_edge_def ensure_node_def has_node_def has_edge_def add_weighted_edge_def)

text \<open>
  C4, amended.  Adding an edge that exists and has a weight makes the weight one more;
  adding an edge that does not exist creates it with weight 1.  Hence, in a crawl that
  starts on the empty graph and returns, every page that was fetched (every node with
  a \<^verbatim>\<open>text_content\<close>) is a page the network served whose followed links account for
  its edges exactly: for every target \<open>t\<close>, if \<open>N\<close> of the page's followed links resolve
  to \<open>t\<close> and \<open>N\<close> is not 0, the graph has exactly one edge from the page to \<open>t\<close> and its
  weight is \<open>N\<close>; if \<open>N\<close> is 0 it has none.
\<close>

theorem weight_counts_links:
  "(map_of (edge_dict G) (JStr source, JStr target) = Some (Some w) \<longrightarrow>
      (\<exists>G'. add_weighted_edge G (JStr source) (JStr target) = Inr G'
           \<and> map_of (edge_dict G') (JStr source, JStr target) = Some (Some (w + 1))))
   \<and> (map_of (edge_dict G) (JStr source, JStr target) = None \<longrightarrow>
      (\<exists>G'. add_weighted_edge G (JStr source) (JStr target) = Inr G'
           \<and> map_of (edge_dict G') (JStr source, JStr target) = Some (Some 1)))
   \<and> (website_graph st = DiGraph
      \<and> website_to_graph d net uj root start start st = Returned st'
      \<and> has_text (website_graph st') page_url \<longrightarrow>
      (\<exists>log status_code soup.
          net log page_url = Response status_code soup
          \<and> \<not> (400 \<le> status_code \<and> status_code < 600)
          \<and> (\<forall>t. map_of (edge_dict (website_graph st')) (JStr page_url, JStr t) =
                   (if links_to uj root t (hrefs soup) = 0 then None
                    else Some (Some (int (links_to uj root t (hrefs soup)))))
                \<and> length (filter (\<lambda>(e, weight). e = (JStr page_url, JStr t))
                            (edge_dict (website_graph st'))) =
                   (if links_to uj root t (hrefs soup) = 0 then 0 else 1))))"
proof (intro conjI impI)
  assume a: "map_of (edge_dict G) (JStr source, JStr target) = Some (Some w)"
  then have "add_weighted_edge G (JStr source) (JStr target) =
      Inr (G\<lparr>edge_dict := AList.update (JStr source, JStr target) (Some (w + 1)) (edge_dict G)\<rparr>)"
    by (simp add: add_weighted_edge_def has_edge_def)
  then show "\<exists>G'. add_weighted_edge G (JStr source) (JStr target) = Inr G'
           \<and> map_of (edge_dict G') (JStr source, JStr target) = Some (Some (w + 1))"
    by (simp add: update_conv')
next
  assume a: "map_of (edge_dict G) (JStr source, JStr target) = None"
  obtain G' where G': "add_edge G (JStr source) (JStr target) (Some 1) = Inr G'"
    using add_edge_JStr by blast
  with a have "add_weighted_edge G (JStr source) (JStr target) = Inr G'"
    by (simp add: add_weighted_edge_def has_edge_def)
  with add_edge_edges[OF G'] show "\<exists>G'. add_weighted_edge G (JStr source) (JStr target) = Inr G'
           \<and> map_of (edge_dict G') (JStr source, JStr target) = Some (Some 1)"
    by simp
next
  assume a: "website_graph st = DiGraph
      \<and> website_to_graph d net uj root start start st = Returned st'
      \<and> has_text (website_graph st') page_url"
  then have c: "page_edges_counted net uj root (website_graph st') page_url"
    and dist: "distinct (map fst (edge_dict (website_graph st')))"
    using fresh_crawl_counted[of st d net uj root start st' page_url] by simp_all
  from c obtain log status_code soup where net: "net log page_url = Response status_code soup"
    "\<not> (400 \<le> status_code \<and> status_code < 600)"
    and e: "\<And>t. map_of (edge_dict (website_graph st')) (JStr page_url, JStr t) =
               bumped None (links_to uj root t (hrefs soup))"
    unfolding page_edges_counted_def by blast
  have "map_of (edge_dict (website_graph st')) (JStr page_url, JStr t) =
                   (if links_to uj root t (hrefs soup) = 0 then None
                    else Some (Some (int (links_to uj root t (hrefs soup)))))
                \<and> length (filter (\<lambda>(e, weight). e = (JStr page_url, JStr t))
                            (edge_dict (website_graph st'))) =
                   (if links_to uj root t (hrefs soup) = 0 then 0 else 1)" for t
    using e[of t] filter_key_distinct[OF dist, of "(JStr page_url, JStr t)"]
    by (simp add: bumped_None)
  with net show "\<exists>log status_code soup.
          net log page_url = Response status_code soup
          \<and> \<not> (400 \<le> status_code \<and> status_code < 600)
          \<and> (\<forall>t. map_of (edge_dict (website_graph st')) (JStr page_url, JStr t) =
                   (if links_to uj root t (hrefs soup) = 0 then None
                    else Some (Some (int (links_to uj root t (hrefs soup)))))
                \<and> length (filter (\<lambda>(e, weight). e = (JStr page_url, JStr t))
                            (edge_dict (website_graph st'))) =
                   (if links_to uj root t (hrefs soup) = 0 then 0 else 1))"
    by blast
qed


theorem weight_counts_links_witness:
  "map_of (edge_dict \<lparr>node_dict = [(JStr ''/'', None), (JStr ''/a'', None)],
                       edge_dict = [((JStr ''/'', JStr ''/a''), Some 2)]\<rparr>)
      (JStr ''/'', JStr ''/a'') = Some (Some 2)
   \<and> (\<exists>G'. add_weighted_edge \<lparr>node_dict = [(JStr ''/'', None), (JStr ''/a'', None)],
                                edge_dict = [((JStr ''/'', JStr ''/a''), Some 2)]\<rparr>
              (JStr ''/'') (JStr ''/a'') = Inr G'
           \<and> map_of (edge_dict G') (JStr ''/'', JStr ''/a'') = Some (Some 3))
   \<and> map_of (edge_dict DiGraph) (JStr ''/'', JStr ''/a'') = None
   \<and> (\<exists>G'. add_weighted_edge DiGraph (JStr ''/'') (JStr ''/a'') = Inr G'
           \<and> map_of (edge_dict G') (JStr ''/'', JStr ''/a'') = Some (Some 1))
   \<and> website_graph fresh_crawl = DiGraph
   \<and> website_to_graph 2 two_links_site simple_urljoin ''http://s'' ''http://s'' ''http://s'' fresh_crawl =
       Returned
         \<lparr>visited = [''http://s'', ''http://s/a''],
          requested = [''http://s'', ''http://s'', ''http://s/a'', ''http://s/a''],
          extracted = [''http://s'', ''http://s'', ''http://s/a'', ''http://s/a''],
          website_graph =
            \<lparr>node_dict = [(JStr ''http://s'', Some (JStr [])), (JStr ''http://s/a'', Some (JStr []))],
             edge_dict = [((JStr ''http://s'', JStr ''http://s/a''), Some 2)]\<rparr>\<rparr>
   \<and> (\<exists>log status_code soup.
          two_links_site log ''http://s'' = Response status_code soup
          \<and> links_to simple_urljoin ''http://s'' ''http://s/a'' (hrefs soup) = 2
          \<and> links_to simple_urljoin ''http://s'' ''http://other.com'' (hrefs soup) = 0)"
proof -
  let ?Gw = "\<lparr>node_dict = [(JStr ''/'', None), (JStr ''/a'', None)],
              edge_dict = [((JStr ''/'', JStr ''/a''), Some 2)]\<rparr>"
  let ?F = "\<lparr>visited = [''http://s'', ''http://s/a''],
          requested = [''http://s'', ''http://s'', ''http://s/a'', ''http://s/a''],
          extracted = [''http://s'', ''http://s'', ''http://s/a'', ''http://s/a''],
          website_graph =
            \<lparr>node_dict = [(JStr ''http://s'', Some (JStr [])), (JStr ''http://s/a'', Some (JStr []))],
             edge_dict = [((JStr ''http://s'', JStr ''http://s/a''), Some 2)]\<rparr>\<rparr>"
  have 1: "map_of (edge_dict ?Gw) (JStr ''/'', JStr ''/a'') = Some (Some 2)" by simp
  have 2: "map_of (edge_dict DiGraph) (JStr ''/'', JStr ''/a'') = None" by (simp add: DiGraph_def)
  have 3: "website_graph fresh_crawl = DiGraph" by (simp add: fresh_crawl_def)
  have 4: "website_to_graph 2 two_links_site simple_urljoin ''http://s'' ''http://s'' ''http://s'' fresh_crawl
             = Returned ?F"
    by code_simp
  have 5: "has_text (website_graph ?F) ''http://s''" by (simp add: has_text_def)
  from weight_counts_links[where G = ?Gw and source = "''/''" and target = "''/a''" and w = 2] 1
  have a: "\<exists>G'. add_weighted_edge ?Gw (JStr ''/'') (JStr ''/a'') = Inr G'
           \<and> map_of (edge_dict G') (JStr ''/'', JStr ''/a'') = Some (Some 3)" by simp
  from weight_counts_links[where G = DiGraph and source = "''/''" and target = "''/a''"] 2
  have b: "\<exists>G'. add_weighted_edge DiGraph (JStr ''/'') (JStr ''/a'') = Inr G'
           \<and> map_of (edge_dict G') (JStr ''/'', JStr ''/a'') = Some (Some 1)" by simp
  from weight_counts_links[where st = fresh_crawl and d = 2 and net = two_links_site
      and uj = simple_urljoin and root = "''http://s''" and start = "''http://s''" and st' = ?F
      and page_url = "''http://s''"] 3 4 5
  obtain log status_code soup where site: "two_links_site log ''http://s'' = Response status_code soup"
    and e: "\<And>t. map_of (edge_dict (website_graph ?F)) (JStr ''http://s'', JStr t) =
                   (if links_to simple_urljoin ''http://s'' t (hrefs soup) = 0 then None
                    else Some (Some (int (links_to simple_urljoin ''http://s'' t (hrefs soup)))))"
    by blast
  from e[of "''http://s/a''"] have "links_to simple_urljoin ''http://s'' ''http://s/a'' (hrefs soup) = 2"
    by (simp split: if_splits)
  moreover from e[of "''http://other.com''"]
  have "links_to simple_urljoin ''http://s'' ''http://other.com'' (hrefs soup) = 0"
    by (simp split: if_splits)
  ultimately have c: "\<exists>log status_code soup.
          two_links_site log ''http://s'' = Response status_code soup
          \<and> links_to simple_urljoin ''http://s'' ''http://s/a'' (hrefs soup) = 2
          \<and> links_to simple_urljoin ''http://s'' ''http://other.com'' (hrefs soup) = 0"
    using site by blast
  from 1 a 2 b 3 4 c show ?thesis by blast
qed

lemma requests_get_strip:
  "requests_get (strip_unfollowed uj root net) u st =
     (case requests_get net u st of
        (Inl e, st') \<Rightarrow> (Inl e, st')
      | (Inr soup, st') \<Rightarrow> (Inr (soup\<lparr>hrefs := filter (leaves_trace uj root) (hrefs soup)\<rparr>), st'))"
  by (simp add: requests_get_def strip_unfollowed_def Let_def split: fetch_outcome.splits)

lemma get_main_text_strip:
  "get_main_text (strip_unfollowed uj root net) u st = get_main_text net u st"
  by (simp add: get_main_text_def requests_get_strip split: prod.splits sum.splits)

lemma follow_links_filter:
  "follow_links d net uj root prev (filter (leaves_trace uj root) links) st =
     follow_links d net uj root prev links st"
  by (induction links arbitrary: st)
    (simp_all add: follow_links.simps leaves_trace_def split: outcome.splits sum.splits)

lemma crawl_strip:
  "website_to_graph d (strip_unfollowed uj root net) uj root prev new st =
     website_to_graph d net uj root prev new st"
  "follow_links d (strip_unfollowed uj root net) uj root prev links st =
     follow_links d net uj root prev links st"
proof (induction d prev new st and d prev links st rule: crawl_induct)
  case (out_of_fuel prev new st)
  show ?case by simp
next
  case (visit d prev new st)
  show ?case
    by (simp add: website_to_graph.simps requests_get_strip get_main_text_strip visit.IH
        follow_links_filter split: prod.splits sum.splits)
next
  case (no_links d prev st)
  show ?case by simp
next
  case (link d prev href links st)
  show ?case
    by (simp add: follow_links.simps link.IH split: outcome.splits sum.splits)
qed

text \<open>
  C8.  A link whose href does not start with \<^verbatim>\<open>/\<close>, or is exactly \<^verbatim>\<open>/\<close>, gets no edge
  and no recursion, from every state (so also when its resolved URL is already a node):
  the round of the loop for it leaves the graph and the logs of calls and requests as
  they are, and either goes on to the next link or, when \<^verbatim>\<open>urljoin\<close> raises on the href
  (line 52), ends the crawl with that exception.  Hence the loop over a page's links
  ends as the loop does over the links that are followed or malformed, and a whole
  crawl ends as it does on the network that serves every page with those links only.
\<close>

theorem unfollowed_links_ignored:
  "(\<not> (startswith href ''/'' \<and> href \<noteq> ''/'') \<longrightarrow>
      follow_links d net uj root prev (href # links) st =
        (case uj root href of
           Inl e \<Rightarrow> Raised e st
         | Inr target \<Rightarrow> follow_links d net uj root prev links st)
      \<and> final_state (follow_links d net uj root prev [href] st) = st)
   \<and> follow_links d net uj root prev links st =
       follow_links d net uj root prev (filter (leaves_trace uj root) links) st
   \<and> website_to_graph d net uj root prev new st =
       website_to_graph d (strip_unfollowed uj root net) uj root prev new st"
proof -
  have "final_state (follow_links d net uj root prev [href] st) = st"
    if "\<not> (startswith href ''/'' \<and> href \<noteq> ''/'')"
    unfolding follow_links_skip[OF that] by (cases "uj root href") simp_all
  then show ?thesis
    using follow_links_skip[of href d net uj root prev links st]
    by (simp only: follow_links_filter crawl_strip) blast
qed

theorem unfollowed_links_ignored_witness:
  "\<not> (startswith ''http://other.com'' ''/'' \<and> ''http://other.com'' \<noteq> ''/'')
   \<and> has_node \<lparr>node_dict = [(JStr ''http://other.com'', None)], edge_dict = []\<rparr>
       (JStr ''http://other.com'')
   \<and> follow_links 1 one_page_site simple_urljoin ''http://s'' ''http://s'' [''http://other.com'']
       (fresh_crawl\<lparr>website_graph :=
          \<lparr>node_dict = [(JStr ''http://other.com'', None)], edge_dict = []\<rparr>\<rparr>) =
     Returned (fresh_crawl\<lparr>website_graph :=
          \<lparr>node_dict = [(JStr ''http://other.com'', None)], edge_dict = []\<rparr>\<rparr>)
   \<and> \<not> (startswith ''http://['' ''/'' \<and> ''http://['' \<noteq> ''/'')
   \<and> follow_links 1 malformed_link_site simple_urljoin ''http://s'' ''http://s''
       [''http://['', ''/a''] fresh_crawl = Raised ValueError fresh_crawl
   \<and> website_to_graph 1 malformed_link_site simple_urljoin ''http://s'' ''http://s'' ''http://s''
       fresh_crawl =
     Raised ValueError
       \<lparr>visited = [''http://s''], requested = [''http://s'', ''http://s''],
        extracted = [''http://s'', ''http://s''],
        website_graph = \<lparr>node_dict = [(JStr ''http://s'', Some (JStr []))], edge_dict = []\<rparr>\<rparr>"
proof -
  let ?st = "fresh_crawl\<lparr>website_graph :=
          \<lparr>node_dict = [(JStr ''http://other.com'', None)], edge_dict = []\<rparr>\<rparr>"
  have 1: "\<not> (startswith ''http://other.com'' ''/'' \<and> ''http://other.com'' \<noteq> ''/'')"
    and 2: "\<not> (startswith ''http://['' ''/'' \<and> ''http://['' \<noteq> ''/'')"
    by (simp_all add: startswith_def)
  have 3: "has_node \<lparr>node_dict = [(JStr ''http://other.com'', None)], edge_dict = []\<rparr>
       (JStr ''http://other.com'')" by (simp add: has_node_def)
  have a: "follow_links 1 one_page_site simple_urljoin ''http://s'' ''http://s'' [''http://other.com''] ?st
      = Returned ?st"
    using unfollowed_links_ignored[where href = "''http://other.com''" and d = 1
      and net = one_page_site and uj = simple_urljoin and root = "''http://s''"
      and prev = "''http://s''" and links = "[]" and st = ?st] 1
    by (simp add: simple_urljoin_def)
  have b: "follow_links 1 malformed_link_site simple_urljoin ''http://s'' ''http://s''
       [''http://['', ''/a''] fresh_crawl = Raised ValueError fresh_crawl"
    using unfollowed_links_ignored[where href = "''http://[''" and d = 1
      and net = malformed_link_site and uj = simple_urljoin and root = "''http://s''"
      and prev = "''http://s''" and links = "[''/a'']" and st = fresh_crawl] 2
    by (simp add: simple_urljoin_def)
  have c: "website_to_graph 1 malformed_link_site simple_urljoin ''http://s'' ''http://s'' ''http://s''
       fresh_crawl =
     Raised ValueError
       \<lparr>visited = [''http://s''], requested = [''http://s'', ''http://s''],
        extracted = [''http://s'', ''http://s''],
        website_graph = \<lparr>node_dict = [(JStr ''http://s'', Some (JStr []))], edge_dict = []\<rparr>\<rparr>"
    by code_simp
  from 1 2 3 a b c show ?thesis by blast
qed

section \<open>Claims about the serializer\<close>

lemma field_subscript:
  "field x key = Some v \<Longrightarrow> subscript x key = Inr v"
  "field x key = None \<Longrightarrow> \<exists>e. subscript x key = Inl e \<and> malformed_document_error e"
  by (cases x; simp)+

lemma add_node_key:
  "node_key n \<Longrightarrow> add_node G n t = Inr (G\<lparr>node_dict := AList.update n (Some t) (node_dict G)\<rparr>)"
  by (cases n) (simp_all add: add_node_def)

lemma add_node_no_key:
  "\<not> node_key n \<Longrightarrow> \<not> has_node G JNull \<Longrightarrow> \<exists>e. add_node G n t = Inl e \<and> malformed_document_error e"
  by (cases n) (simp_all add: add_node_def)

lemma ensure_node_key:
  "node_key n \<Longrightarrow> \<exists>G'. ensure_node G n = Inr G' \<and> (has_node G' JNull \<longleftrightarrow> has_node G JNull)"
  by (cases n) (auto simp: ensure_node_def has_node_def)

lemma ensure_node_no_key:
  "\<not> node_key n \<Longrightarrow> \<not> has_node G JNull \<Longrightarrow> \<exists>e. ensure_node G n = Inl e \<and> malformed_document_error e"
  by (cases n) (simp_all add: ensure_node_def)

lemma add_edge_keys:
  assumes "node_key u" "node_key v"
  shows "\<exists>G'. add_edge G u v attr = Inr G' \<and> (has_node G' JNull \<longleftrightarrow> has_node G JNull)"
proof -
  from ensure_node_key[OF assms(1), of G] obtain G1 where
    1: "ensure_node G u = Inr G1" "has_node G1 JNull \<longleftrightarrow> has_node G JNull" by blast
  from ensure_node_key[OF assms(2), of G1] obtain G2 where
    2: "ensure_node G1 v = Inr G2" "has_node G2 JNull \<longleftrightarrow> has_node G1 JNull" by blast
  have "add_edge G u v attr =
      Inr (G2\<lparr>edge_dict := AList.update (u, v)
        (case attr of Some w \<Rightarrow> Some w
         | None \<Rightarrow> (case map_of (edge_dict G2) (u, v) of Some d \<Rightarrow> d | None \<Rightarrow> None))
        (edge_dict G2)\<rparr>)"
    using 1(1) 2(1) by (simp add: add_edge_def Let_def)
  moreover have "has_node (G2\<lparr>edge_dict := es\<rparr>) JNull \<longleftrightarrow> has_node G JNull" for es
    using 1(2) 2(2) by (simp add: has_node_def)
  ultimately show ?thesis by blast
qed

lemma add_edge_no_keys:
  assumes "\<not> (node_key u \<and> node_key v)" "\<not> has_node G JNull"
  shows "\<exists>e. add_edge G u v attr = Inl e \<and> malformed_document_error e"
proof (cases "node_key u")
  case False
  from ensure_node_no_key[OF False assms(2)] show ?thesis
    by (auto simp: add_edge_def)
next
  case True
  from ensure_node_key[OF True, of G] obtain G1 where
    1: "ensure_node G u = Inr G1" "has_node G1 JNull \<longleftrightarrow> has_node G JNull" by blast
  from True assms(1) have "\<not> node_key v" by simp
  from ensure_node_no_key[OF this, of G1] 1 assms(2) show ?thesis
    by (auto simp: add_edge_def)
qed

lemma add_nodes_from_json_accepted:
  "list_all node_entry xs \<Longrightarrow> \<not> has_node G JNull \<Longrightarrow>
     \<exists>G'. add_nodes_from_json G xs = Inr G' \<and> \<not> has_node G' JNull"
proof (induction xs arbitrary: G)
  case Nil
  then show ?case by simp
next
  case (Cons x xs)
  from Cons.prems(1) obtain t n where x: "field x ''text_content'' = Some t" "field x ''id'' = Some n"
    "node_key n"
    by (auto simp: node_entry_def split: option.splits)
  let ?G1 = "G\<lparr>node_dict := AList.update n (Some t) (node_dict G)\<rparr>"
  from x(3) have "n \<noteq> JNull" by auto
  with Cons.prems(2) have "\<not> has_node ?G1 JNull" by simp
  with Cons.IH[of ?G1] Cons.prems(1) obtain G' where
    "add_nodes_from_json ?G1 xs = Inr G'" "\<not> has_node G' JNull" by auto
  with x show ?case by (simp add: field_subscript add_node_key)
qed

lemma add_nodes_from_json_refused:
  "\<not> list_all node_entry xs \<Longrightarrow> \<not> has_node G JNull \<Longrightarrow>
     \<exists>e. add_nodes_from_json G xs = Inl e \<and> malformed_document_error e"
proof (induction xs arbitrary: G)
  case Nil
  then show ?case by simp
next
  case (Cons x xs)
  show ?case
  proof (cases "field x ''text_content''")
    case None
    from field_subscript(2)[OF None] show ?thesis by auto
  next
    case t: (Some t)
    show ?thesis
    proof (cases "field x ''id''")
      case None
      from field_subscript(2)[OF None] t show ?thesis by (auto simp: field_subscript)
    next
      case n: (Some n)
      show ?thesis
      proof (cases "node_key n")
        case False
        from add_node_no_key[OF False Cons.prems(2), of t] t n show ?thesis
          by (auto simp: field_subscript)
      next
        case True
        let ?G1 = "G\<lparr>node_dict := AList.update n (Some t) (node_dict G)\<rparr>"
        from True have "n \<noteq> JNull" by auto
        with Cons.prems(2) have 1: "\<not> has_node ?G1 JNull" by simp
        from True t n have "node_entry x" by (simp add: node_entry_def)
        with Cons.prems(1) have "\<not> list_all node_entry xs" by simp
        from Cons.IH[OF this 1] t n True show ?thesis
          by (simp add: field_subscript add_node_key)
      qed
    qed
  qed
qed

lemma add_edges_from_json_accepted:
  "list_all link_entry xs \<Longrightarrow> \<not> has_node G JNull \<Longrightarrow> \<exists>G'. add_edges_from_json G xs = Inr G'"
proof (induction xs arbitrary: G)
  case Nil
  then show ?case by simp
next
  case (Cons x xs)
  from Cons.prems(1) obtain u v where x: "field x ''source'' = Some u" "field x ''target'' = Some v"
    "node_key u" "node_key v"
    by (auto simp: link_entry_def split: option.splits)
  from add_edge_keys[OF x(3,4), of G None] Cons.prems(2) obtain G1 where
    1: "add_edge G u v None = Inr G1" "\<not> has_node G1 JNull" by auto
  from Cons.IH[OF _ 1(2)] Cons.prems(1) obtain G' where "add_edges_from_json G1 xs = Inr G'"
    by auto
  with x 1 show ?case by (simp add: field_subscript)
qed

lemma add_edges_from_json_refused:
  "\<not> list_all link_entry xs \<Longrightarrow> \<not> has_node G JNull \<Longrightarrow>
     \<exists>e. add_edges_from_json G xs = Inl e \<and> malformed_document_error e"
proof (induction xs arbitrary: G)
  case Nil
  then show ?case by simp
next
  case (Cons x xs)
  show ?case
  proof (cases "field x ''source''")
    case None
    from field_subscript(2)[OF None] show ?thesis by auto
  next
    case u: (Some u)
    show ?thesis
    proof (cases "field x ''target''")
      case None
      from field_subscript(2)[OF None] u show ?thesis by (auto simp: field_subscript)
    next
      case v: (Some v)
      show ?thesis
      proof (cases "node_key u \<and> node_key v")
        case False
        from add_edge_no_keys[OF False Cons.prems(2), of None] u v show ?thesis
          by (auto simp: field_subscript)
      next
        case True
        from add_edge_keys[of u v G None] True Cons.prems(2) obtain G1 where
          1: "add_edge G u v None = Inr G1" "\<not> has_node G1 JNull" by auto
        from True u v have "link_entry x" by (simp add: link_entry_def)
        with Cons.prems(1) have "\<not> list_all link_entry xs" by simp
        from Cons.IH[OF this 1(2)] u v 1 show ?thesis
          by (simp add: field_subscript)
      qed
    qed
  qed
qed

lemma collection_iterate: "collection v = Some xs \<Longrightarrow> iterate v = Inr xs"
  by (cases v) (auto split: if_splits)

lemma no_collection:
  "collection v = None \<Longrightarrow> iterate v = Inl TypeError \<or> (\<exists>s xs. iterate v = Inr (JStr s # xs))"
  by (cases v) (auto split: if_splits simp: neq_Nil_conv)

lemma string_no_entry [simp]: "\<not> node_entry (JStr s)" "\<not> link_entry (JStr s)"
  by (simp_all add: node_entry_def link_entry_def)

lemma iterate_refused:
  assumes "collection v = None" "\<not> has_node G JNull"
  shows "(\<exists>e. iterate v = Inl e \<and> malformed_document_error e)
       \<or> (\<exists>xs e. iterate v = Inr xs \<and> add_nodes_from_json G xs = Inl e \<and> malformed_document_error e)"
    and "(\<exists>e. iterate v = Inl e \<and> malformed_document_error e)
       \<or> (\<exists>xs e. iterate v = Inr xs \<and> add_edges_from_json G xs = Inl e \<and> malformed_document_error e)"
proof -
  from no_collection[OF assms(1)] consider "iterate v = Inl TypeError"
    | s xs where "iterate v = Inr (JStr s # xs)" by blast
  then show "(\<exists>e. iterate v = Inl e \<and> malformed_document_error e)
       \<or> (\<exists>xs e. iterate v = Inr xs \<and> add_nodes_from_json G xs = Inl e \<and> malformed_document_error e)"
  proof cases
    case 1
    then show ?thesis by simp
  next
    case 2
    with add_nodes_from_json_refused[of "JStr s # xs" G] assms(2) show ?thesis by simp
  qed
  from no_collection[OF assms(1)] consider "iterate v = Inl TypeError"
    | s xs where "iterate v = Inr (JStr s # xs)" by blast
  then show "(\<exists>e. iterate v = Inl e \<and> malformed_document_error e)
       \<or> (\<exists>xs e. iterate v = Inr xs \<and> add_edges_from_json G xs = Inl e \<and> malformed_document_error e)"
  proof cases
    case 1
    then show ?thesis by simp
  next
    case 2
    with add_edges_from_json_refused[of "JStr s # xs" G] assms(2) show ?thesis by simp
  qed
qed

lemma no_null_DiGraph: "\<not> has_node DiGraph JNull"
  by (simp add: has_node_def DiGraph_def)

lemma json_to_graph_accepted:
  assumes doc: "fs filepath = Some (Document data)" and ok: "accepted data"
  shows "\<exists>G. json_to_graph fs filepath = Inr G"
proof -
  from ok obtain ns ls node_list link_list where
    f: "field data ''nodes'' = Some ns" "field data ''links'' = Some ls"
    and c: "collection ns = Some node_list" "collection ls = Some link_list"
    and e: "list_all node_entry node_list" "list_all link_entry link_list"
    by (auto simp: accepted_def split: option.splits)
  from add_nodes_from_json_accepted[OF e(1) no_null_DiGraph] obtain G1 where
    1: "add_nodes_from_json DiGraph node_list = Inr G1" "\<not> has_node G1 JNull" by blast
  from add_edges_from_json_accepted[OF e(2) 1(2)] obtain G2 where
    2: "add_edges_from_json G1 link_list = Inr G2" by blast
  from doc f c 1 2 show ?thesis
    by (simp add: json_to_graph_def field_subscript collection_iterate)
qed

lemma json_to_graph_refused:
  assumes doc: "fs filepath = Some (Document data)" and no: "\<not> accepted data"
  shows "\<exists>e. json_to_graph fs filepath = Inl e \<and> malformed_document_error e"
proof (cases "field data ''nodes''")
  case None
  from field_subscript(2)[OF None] doc show ?thesis by (auto simp: json_to_graph_def)
next
  case ns: (Some ns)
  show ?thesis
  proof (cases "collection ns")
    case None
    from iterate_refused(1)[OF None no_null_DiGraph] doc ns show ?thesis
      by (auto simp: json_to_graph_def field_subscript)
  next
    case node_list: (Some node_list)
    show ?thesis
    proof (cases "list_all node_entry node_list")
      case False
      from add_nodes_from_json_refused[OF False no_null_DiGraph] doc ns node_list show ?thesis
        by (auto simp: json_to_graph_def field_subscript collection_iterate)
    next
      case True
      from add_nodes_from_json_accepted[OF True no_null_DiGraph] obtain G1 where
        1: "add_nodes_from_json DiGraph node_list = Inr G1" "\<not> has_node G1 JNull" by blast
      show ?thesis
      proof (cases "field data ''links''")
        case None
        from field_subscript(2)[OF None] doc ns node_list 1 show ?thesis
          by (auto simp: json_to_graph_def field_subscript collection_iterate)
      next
        case ls: (Some ls)
        show ?thesis
        proof (cases "collection ls")
          case None
          from iterate_refused(2)[OF None 1(2)] doc ns node_list 1 ls show ?thesis
            by (auto simp: json_to_graph_def field_subscript collection_iterate)
        next
          case link_list: (Some link_list)
          with no ns ls node_list True have "\<not> list_all link_entry link_list"
            by (simp add: accepted_def)
          from add_edges_from_json_refused[OF this 1(2)] doc ns node_list 1 ls link_list
          show ?thesis
            by (auto simp: json_to_graph_def field_subscript collection_iterate)
        qed
      qed
    qed
  qed
qed

lemma is_string_key: "is_string n \<Longrightarrow> node_key n"
  by (cases n) simp_all

lemma format_node_entry: "format_node x \<Longrightarrow> node_entry x"
  by (auto simp: format_node_def node_entry_def is_string_key split: option.splits)

lemma format_link_entry: "format_link x \<Longrightarrow> link_entry x"
  by (auto simp: format_link_def link_entry_def is_string_key split: option.splits)

lemma format_accepted:
  assumes "follows_format data"
  shows "accepted data"
proof (cases "field data ''nodes''")
  case None
  with assms show ?thesis by (simp add: follows_format_def)
next
  case ns: (Some ns)
  show ?thesis
  proof (cases "field data ''links''")
    case None
    with assms ns show ?thesis by (cases ns) (simp_all add: follows_format_def)
  next
    case ls: (Some ls)
    from assms ns ls obtain xs where xs: "ns = JArr xs"
      by (cases ns) (simp_all add: follows_format_def)
    from assms ns ls xs obtain ys where ys: "ls = JArr ys"
      by (cases ls) (simp_all add: follows_format_def)
    from assms ns ls xs ys have "list_all format_node xs" "list_all format_link ys"
      by (simp_all add: follows_format_def)
    then have "list_all node_entry xs" "list_all link_entry ys"
      by (auto simp: list_all_iff format_node_entry format_link_entry)
    with ns ls xs ys show ?thesis by (simp add: accepted_def)
  qed
qed

text \<open>
  C9, as the code has it.  The claim fails on documents that are not of the format and
  load without any error.  The document \<^verbatim>\<open>{"nodes": "", "links": ""}\<close> loads as the
  empty graph: the two loops run over an empty string.  A document whose node has
  numbers for \<^verbatim>\<open>id\<close> and \<^verbatim>\<open>text_content\<close> and whose link has numbers for its endpoints
  and no \<^verbatim>\<open>weight\<close> loads as a graph of those values.  And \<^verbatim>\<open>load_from_json\<close> does not
  answer every unreadable file with \<^verbatim>\<open>None\<close>: on a file that is no text it raises
  \<^verbatim>\<open>UnicodeDecodeError\<close>.
\<close>

theorem malformed_documents_load:
  "\<not> follows_format (JObj [(''nodes'', JStr []), (''links'', JStr [])])
   \<and> json_to_graph [''g.json'' \<mapsto> Document (JObj [(''nodes'', JStr []), (''links'', JStr [])])]
       ''g.json'' = Inr DiGraph
   \<and> \<not> follows_format
         (JObj [(''nodes'', JArr [JObj [(''text_content'', JNum 0), (''id'', JNum 1)]]),
                (''links'', JArr [JObj [(''source'', JNum 1), (''target'', JNum 2)]])])
   \<and> json_to_graph
       [''g.json'' \<mapsto> Document
          (JObj [(''nodes'', JArr [JObj [(''text_content'', JNum 0), (''id'', JNum 1)]]),
                 (''links'', JArr [JObj [(''source'', JNum 1), (''target'', JNum 2)]])])]
       ''g.json''
     = Inr \<lparr>node_dict = [(JNum 1, Some (JNum 0)), (JNum 2, None)],
            edge_dict = [((JNum 1, JNum 2), None)]\<rparr>
   \<and> load_from_json [''g.json'' \<mapsto> Undecodable] ''g.json'' = Inl UnicodeDecodeError"
  by (simp add: follows_format_def format_node_def format_link_def json_to_graph_def
      load_from_json_def DiGraph_def add_node_def add_edge_def ensure_node_def has_node_def)

text \<open>
  C9, amended.  Loading fails, and the failure reaches the caller, in these cases and
  in no other: for a path with no file \<open>json_to_graph\<close> raises \<^verbatim>\<open>FileNotFoundError\<close>,
  for a file that is no JSON document \<^verbatim>\<open>JSONDecodeError\<close>, for a file that is no text
  \<^verbatim>\<open>UnicodeDecodeError\<close>; \<open>load_from_json\<close> answers the first two with \<^verbatim>\<open>None\<close> and
  raises in the third.  For a JSON document, \<open>json_to_graph\<close> raises \<^verbatim>\<open>KeyError\<close>,
  \<^verbatim>\<open>TypeError\<close> or \<^verbatim>\<open>ValueError\<close> exactly when the document is not accepted: it is not
  an object, it has no \<^verbatim>\<open>nodes\<close> or no \<^verbatim>\<open>links\<close>, one of them is neither a list nor an
  empty string nor an empty object, a node is not an object with \<^verbatim>\<open>text_content\<close> and an
  \<^verbatim>\<open>id\<close> that can be a node, or a link is not an object with a \<^verbatim>\<open>source\<close> and a
  \<^verbatim>\<open>target\<close> that can be nodes.  Every other document loads as a graph; every document
  of the format is among them, and so are documents that are not of the format.
\<close>

theorem load_failures_reach_caller:
  "(fs filepath = None \<longrightarrow>
      json_to_graph fs filepath = Inl FileNotFoundError \<and> load_from_json fs filepath = Inr JNull)
   \<and> (fs filepath = Some NotJSON \<longrightarrow>
      json_to_graph fs filepath = Inl JSONDecodeError \<and> load_from_json fs filepath = Inr JNull)
   \<and> (fs filepath = Some Undecodable \<longrightarrow>
      json_to_graph fs filepath = Inl UnicodeDecodeError
      \<and> load_from_json fs filepath = Inl UnicodeDecodeError)
   \<and> (fs filepath = Some (Document data) \<longrightarrow>
      load_from_json fs filepath = Inr data
      \<and> (follows_format data \<longrightarrow> accepted data)
      \<and> (accepted data \<longrightarrow> (\<exists>G. json_to_graph fs filepath = Inr G))
      \<and> (\<not> accepted data \<longrightarrow>
           (\<exists>e. json_to_graph fs filepath = Inl e \<and> malformed_document_error e)))"
proof (intro conjI impI)
  assume "fs filepath = None"
  then show "json_to_graph fs filepath = Inl FileNotFoundError"
    and "load_from_json fs filepath = Inr JNull"
    by (simp_all add: json_to_graph_def load_from_json_def)
next
  assume "fs filepath = Some NotJSON"
  then show "json_to_graph fs filepath = Inl JSONDecodeError"
    and "load_from_json fs filepath = Inr JNull"
    by (simp_all add: json_to_graph_def load_from_json_def)
next
  assume "fs filepath = Some Undecodable"
  then show "json_to_graph fs filepath = Inl UnicodeDecodeError"
    and "load_from_json fs filepath = Inl UnicodeDecodeError"
    by (simp_all add: json_to_graph_def load_from_json_def)
next
  assume "fs filepath = Some (Document data)"
  then show "load_from_json fs filepath = Inr data"
    by (simp add: load_from_json_def)
next
  assume "follows_format data"
  then show "accepted data" by (rule format_accepted)
next
  assume "fs filepath = Some (Document data)" "accepted data"
  then show "\<exists>G. json_to_graph fs filepath = Inr G" by (rule json_to_graph_accepted)
next
  assume "fs filepath = Some (Document data)" "\<not> accepted data"
  then show "\<exists>e. json_to_graph fs filepath = Inl e \<and> malformed_document_error e"
    by (rule json_to_graph_refused)
qed

theorem load_failures_reach_caller_witness:
  "json_to_graph Map.empty ''g.json'' = Inl FileNotFoundError
   \<and> load_from_json Map.empty ''g.json'' = Inr JNull
   \<and> json_to_graph [''g.json'' \<mapsto> NotJSON] ''g.json'' = Inl JSONDecodeError
   \<and> json_to_graph [''g.json'' \<mapsto> Undecodable] ''g.json'' = Inl UnicodeDecodeError
   \<and> \<not> accepted (JObj [(''nodes'', JArr [JObj [(''id'', JStr ''/'')]]), (''links'', JArr [])])
   \<and> json_to_graph
       [''g.json'' \<mapsto> Document (JObj [(''nodes'', JArr [JObj [(''id'', JStr ''/'')]]), (''links'', JArr [])])]
       ''g.json'' = Inl (KeyError ''text_content'')
   \<and> \<not> accepted (JArr [])
   \<and> json_to_graph [''g.json'' \<mapsto> Document (JArr [])] ''g.json'' = Inl TypeError
   \<and> follows_format
       (JObj [(''nodes'', JArr [JObj [(''id'', JStr ''/''), (''text_content'', JStr ''home'')]]),
              (''links'', JArr [JObj [(''source'', JStr ''/''), (''target'', JStr ''/''),
                                      (''weight'', JNum 1)]])])
   \<and> accepted
       (JObj [(''nodes'', JArr [JObj [(''id'', JStr ''/''), (''text_content'', JStr ''home'')]]),
              (''links'', JArr [JObj [(''source'', JStr ''/''), (''target'', JStr ''/''),
                                      (''weight'', JNum 1)]])])
   \<and> (\<exists>G. json_to_graph
        [''g.json'' \<mapsto> Document
          (JObj [(''nodes'', JArr [JObj [(''id'', JStr ''/''), (''text_content'', JStr ''home'')]]),
                 (''links'', JArr [JObj [(''source'', JStr ''/''), (''target'', JStr ''/''),
                                         (''weight'', JNum 1)]])])]
        ''g.json'' = Inr G)"
proof -
  let ?bad = "JObj [(''nodes'', JArr [JObj [(''id'', JStr ''/'')]]), (''links'', JArr [])]"
  let ?good = "JObj [(''nodes'', JArr [JObj [(''id'', JStr ''/''), (''text_content'', JStr ''home'')]]),
              (''links'', JArr [JObj [(''source'', JStr ''/''), (''target'', JStr ''/''),
                                      (''weight'', JNum 1)]])]"
  have 1: "\<not> accepted ?bad" by (simp add: accepted_def node_entry_def)
  have 2: "\<not> accepted (JArr [])" by (simp add: accepted_def)
  have 3: "follows_format ?good" by (simp add: follows_format_def format_node_def format_link_def)
  have a: "json_to_graph Map.empty ''g.json'' = Inl FileNotFoundError
      \<and> load_from_json Map.empty ''g.json'' = Inr JNull"
    using load_failures_reach_caller[of Map.empty "''g.json''"] by simp
  have b: "json_to_graph [''g.json'' \<mapsto> NotJSON] ''g.json'' = Inl JSONDecodeError"
    using load_failures_reach_caller[of "[''g.json'' \<mapsto> NotJSON]" "''g.json''"] by simp
  have c: "json_to_graph [''g.json'' \<mapsto> Undecodable] ''g.json'' = Inl UnicodeDecodeError"
    using load_failures_reach_caller[of "[''g.json'' \<mapsto> Undecodable]" "''g.json''"] by simp
  have d: "json_to_graph [''g.json'' \<mapsto> Document ?bad] ''g.json'' = Inl (KeyError ''text_content'')"
    by (simp add: json_to_graph_def)
  have e: "json_to_graph [''g.json'' \<mapsto> Document (JArr [])] ''g.json'' = Inl TypeError"
    by (simp add: json_to_graph_def)
  have f: "accepted ?good \<and> (\<exists>G. json_to_graph [''g.json'' \<mapsto> Document ?good] ''g.json'' = Inr G)"
    using load_failures_reach_caller[of "[''g.json'' \<mapsto> Document ?good]" "''g.json''" ?good] 3
    by simp
  from a b c d e f 1 2 3 show ?thesis by blast
qed

lemma update_fresh: "k \<notin> fst ` set al \<Longrightarrow> AList.update k v al = al @ [(k, v)]"
  by (induction al) auto

lemma has_node_iff: "has_node G n \<longleftrightarrow> n \<in> fst ` set (node_dict G)"
  by (simp add: has_node_def map_of_eq_None_iff)

lemma add_nodes_from_json_node_objs:
  assumes "distinct (map fst (node_dict G0 @ ns))"
    and "list_all (\<lambda>(n, a). \<not> unhashable n \<and> n \<noteq> JNull) ns"
    and "list_all (\<lambda>(n, a). a \<noteq> None) ns"
  shows "add_nodes_from_json G0 (map node_obj ns) = Inr (G0\<lparr>node_dict := node_dict G0 @ ns\<rparr>)"
  using assms
proof (induction ns arbitrary: G0)
  case Nil
  then show ?case by simp
next
  case (Cons p ns)
  obtain n a where p: "p = (n, a)" by (cases p)
  from Cons.prems(3) p obtain t where a: "a = Some t" by auto
  from Cons.prems(2) p have ok: "\<not> unhashable n" "n \<noteq> JNull" by auto
  from Cons.prems(1) p have fresh: "n \<notin> fst ` set (node_dict G0)" by auto
  let ?G1 = "G0\<lparr>node_dict := node_dict G0 @ [(n, Some t)]\<rparr>"
  have step: "add_node G0 n t = Inr ?G1"
    using ok fresh by (simp add: add_node_def update_fresh)
  have "add_nodes_from_json ?G1 (map node_obj ns) = Inr (?G1\<lparr>node_dict := node_dict ?G1 @ ns\<rparr>)"
    using Cons.prems p a by (intro Cons.IH) auto
  with step p a show ?case by simp
qed

lemma add_edges_from_json_link_objs:
  assumes "distinct (map fst (edge_dict G0 @ es))"
    and "list_all (\<lambda>(n, a). \<not> unhashable n \<and> n \<noteq> JNull) (node_dict G0)"
    and "list_all (\<lambda>((u, v), w). has_node G0 u \<and> has_node G0 v) es"
  shows "add_edges_from_json G0 (map link_obj es) =
           Inr (G0\<lparr>edge_dict := edge_dict G0 @ map (\<lambda>(e, w). (e, None)) es\<rparr>)"
  using assms
proof (induction es arbitrary: G0)
  case Nil
  then show ?case by simp
next
  case (Cons p es)
  obtain u v w where p: "p = ((u, v), w)" by (cases p) auto
  from Cons.prems(3) p have nodes: "has_node G0 u" "has_node G0 v" by auto
  with Cons.prems(2) have ok: "\<not> unhashable u" "\<not> unhashable v"
    by (auto simp: has_node_iff list_all_iff)
  from Cons.prems(1) p have fresh: "(u, v) \<notin> fst ` set (edge_dict G0)" by auto
  then have none: "map_of (edge_dict G0) (u, v) = None"
    by (simp add: map_of_eq_None_iff)
  let ?G1 = "G0\<lparr>edge_dict := edge_dict G0 @ [((u, v), None)]\<rparr>"
  have step: "add_edge G0 u v None = Inr ?G1"
    using ok nodes none fresh by (simp add: add_edge_def ensure_node_def update_fresh)
  have sub: "subscript (link_obj p) ''source'' = Inr u" "subscript (link_obj p) ''target'' = Inr v"
    using p by (cases w; simp)+
  have "add_edges_from_json ?G1 (map link_obj es) =
          Inr (?G1\<lparr>edge_dict := edge_dict ?G1 @ map (\<lambda>(e, w). (e, None)) es\<rparr>)"
    using Cons.prems p by (intro Cons.IH) (auto simp: has_node_def)
  with step sub p show ?case by simp
qed

lemma load_saved_graph:
  assumes "is_nx_graph G" "every_node_has_text G"
  shows "json_to_graph (graph_to_json G filepath fs) filepath =
           Inr \<lparr>node_dict = node_dict G, edge_dict = map (\<lambda>(e, w). (e, None)) (edge_dict G)\<rparr>"
proof -
  have nodes: "add_nodes_from_json DiGraph (map node_obj (node_dict G)) =
      Inr (DiGraph\<lparr>node_dict := node_dict DiGraph @ node_dict G\<rparr>)"
    using assms by (intro add_nodes_from_json_node_objs)
      (simp_all add: is_nx_graph_def every_node_has_text_def DiGraph_def)
  let ?G1 = "DiGraph\<lparr>node_dict := node_dict DiGraph @ node_dict G\<rparr>"
  have "list_all (\<lambda>((u, v), w). has_node ?G1 u \<and> has_node ?G1 v) (edge_dict G)"
    unfolding list_all_iff
  proof clarify
    fix u v w assume "((u, v), w) \<in> set (edge_dict G)"
    then have "(u, v) \<in> fst ` set (edge_dict G)" by force
    then have "has_edge G u v" by (simp add: has_edge_def map_of_eq_None_iff)
    with assms(1) have "has_node G u \<and> has_node G v"
      by (simp add: is_nx_graph_def no_dangling_def)
    then show "has_node ?G1 u \<and> has_node ?G1 v"
      by (simp add: has_node_def DiGraph_def)
  qed
  then have edges: "add_edges_from_json ?G1 (map link_obj (edge_dict G)) =
      Inr (?G1\<lparr>edge_dict := edge_dict ?G1 @ map (\<lambda>(e, w). (e, None)) (edge_dict G)\<rparr>)"
    using assms by (intro add_edges_from_json_link_objs)
      (simp_all add: is_nx_graph_def DiGraph_def)
  show ?thesis
    using nodes edges
    by (simp add: json_to_graph_def graph_to_json_def node_link_data_def DiGraph_def)
qed

text \<open>
  C5, as the code has it.  The claim fails on the graph the crawler returns for the
  site with the broken link: its node \<^verbatim>\<open>http://s/a\<close> has no \<^verbatim>\<open>text_content\<close>, the saved
  document has no such key for it, and \<^verbatim>\<open>node["text_content"]\<close> (line 139) raises, so
  no graph is loaded.
\<close>

theorem load_fails_on_node_without_text:
  "website_to_graph 2 broken_link_site simple_urljoin ''http://s'' ''http://s'' ''http://s'' fresh_crawl =
     Returned \<lparr>visited = [''http://s'', ''http://s/a''],
       requested = [''http://s'', ''http://s'', ''http://s/a''],
       extracted = [''http://s'', ''http://s''],
       website_graph =
         \<lparr>node_dict = [(JStr ''http://s'', Some (JStr (''home'' @ [CHR 0x0A]))),
                       (JStr ''http://s/a'', None)],
          edge_dict = [((JStr ''http://s'', JStr ''http://s/a''), Some 1)]\<rparr>\<rparr>
   \<and> is_nx_graph
       \<lparr>node_dict = [(JStr ''http://s'', Some (JStr (''home'' @ [CHR 0x0A]))),
                     (JStr ''http://s/a'', None)],
        edge_dict = [((JStr ''http://s'', JStr ''http://s/a''), Some 1)]\<rparr>
   \<and> json_to_graph
       (graph_to_json
          \<lparr>node_dict = [(JStr ''http://s'', Some (JStr (''home'' @ [CHR 0x0A]))),
                        (JStr ''http://s/a'', None)],
           edge_dict = [((JStr ''http://s'', JStr ''http://s/a''), Some 1)]\<rparr>
          ''graph.json'' Map.empty)
       ''graph.json''
     = Inl (KeyError ''text_content'')"
proof -
  have "website_to_graph 2 broken_link_site simple_urljoin ''http://s'' ''http://s'' ''http://s'' fresh_crawl =
     Returned \<lparr>visited = [''http://s'', ''http://s/a''],
       requested = [''http://s'', ''http://s'', ''http://s/a''],
       extracted = [''http://s'', ''http://s''],
       website_graph =
         \<lparr>node_dict = [(JStr ''http://s'', Some (JStr (''home'' @ [CHR 0x0A]))),
                       (JStr ''http://s/a'', None)],
          edge_dict = [((JStr ''http://s'', JStr ''http://s/a''), Some 1)]\<rparr>\<rparr>"
    by code_simp
  then show ?thesis
    by (simp add: is_nx_graph_def no_dangling_def has_edge_def has_node_def json_to_graph_def
        graph_to_json_def node_link_data_def DiGraph_def add_node_def)
qed

text \<open>
  C5, amended.  For every graph in which every node carries a \<^verbatim>\<open>text_content\<close>
  attribute, loading what was saved returns a graph with the same nodes, each with the
  same \<^verbatim>\<open>text_content\<close> (and in the same order).
\<close>

theorem load_save_keeps_nodes:
  assumes "is_nx_graph G" "every_node_has_text G"
  shows "\<exists>G'. json_to_graph (graph_to_json G filepath fs) filepath = Inr G'
           \<and> node_dict G' = node_dict G"
  using load_saved_graph[OF assms, of filepath fs] by simp

theorem load_save_keeps_nodes_witness:
  "is_nx_graph \<lparr>node_dict = [(JStr ''/'', Some (JStr ''home'')), (JStr ''/a'', Some (JStr []))],
                edge_dict = [((JStr ''/'', JStr ''/a''), Some 2)]\<rparr>
   \<and> every_node_has_text
        \<lparr>node_dict = [(JStr ''/'', Some (JStr ''home'')), (JStr ''/a'', Some (JStr []))],
         edge_dict = [((JStr ''/'', JStr ''/a''), Some 2)]\<rparr>
   \<and> (\<exists>G'. json_to_graph
          (graph_to_json
             \<lparr>node_dict = [(JStr ''/'', Some (JStr ''home'')), (JStr ''/a'', Some (JStr []))],
              edge_dict = [((JStr ''/'', JStr ''/a''), Some 2)]\<rparr>
             ''graph.json'' Map.empty)
          ''graph.json'' = Inr G'
        \<and> node_dict G' = [(JStr ''/'', Some (JStr ''home'')), (JStr ''/a'', Some (JStr []))])"
proof -
  let ?G = "\<lparr>node_dict = [(JStr ''/'', Some (JStr ''home'')), (JStr ''/a'', Some (JStr []))],
              edge_dict = [((JStr ''/'', JStr ''/a''), Some 2)]\<rparr>"
  have 1: "is_nx_graph ?G"
    by (simp add: is_nx_graph_def no_dangling_def has_edge_def has_node_def)
  have 2: "every_node_has_text ?G"
    by (simp add: every_node_has_text_def)
  from load_save_keeps_nodes[OF 1 2, of "''graph.json''" Map.empty] 1 2 show ?thesis by simp
qed

text \<open>
  C6, as the code has it.  The claim fails on the graph that one call of
  \<open>add_weighted_edge\<close> makes of the empty graph: neither node has a \<^verbatim>\<open>text_content\<close>, so
  loading the saved document raises and no edge set is reproduced.
\<close>

theorem load_fails_after_add_weighted_edge:
  "add_weighted_edge DiGraph (JStr ''/a'') (JStr ''/b'') =
     Inr \<lparr>node_dict = [(JStr ''/a'', None), (JStr ''/b'', None)],
          edge_dict = [((JStr ''/a'', JStr ''/b''), Some 1)]\<rparr>
   \<and> is_nx_graph \<lparr>node_dict = [(JStr ''/a'', None), (JStr ''/b'', None)],
                  edge_dict = [((JStr ''/a'', JStr ''/b''), Some 1)]\<rparr>
   \<and> json_to_graph
       (graph_to_json
          \<lparr>node_dict = [(JStr ''/a'', None), (JStr ''/b'', None)],
           edge_dict = [((JStr ''/a'', JStr ''/b''), Some 1)]\<rparr>
          ''graph.json'' Map.empty)
       ''graph.json''
     = Inl (KeyError ''text_content'')"
  by (simp add: is_nx_graph_def no_dangling_def has_edge_def has_node_def json_to_graph_def
      graph_to_json_def node_link_data_def DiGraph_def add_node_def add_weighted_edge_def
      add_edge_def ensure_node_def)

text \<open>
  C6, amended.  For every graph in which every node carries a \<^verbatim>\<open>text_content\<close>
  attribute, loading what was saved returns a graph with the same edges (and in the
  same order), none of which has a \<^verbatim>\<open>weight\<close> attribute, whatever weight it had: line
  148 adds each edge by a plain \<^verbatim>\<open>G.add_edge(source, target)\<close>.
\<close>

theorem load_save_drops_weights:
  assumes "is_nx_graph G" "every_node_has_text G"
  shows "\<exists>G'. json_to_graph (graph_to_json G filepath fs) filepath = Inr G'
           \<and> map fst (edge_dict G') = map fst (edge_dict G)
           \<and> list_all (\<lambda>(e, weight). weight = None) (edge_dict G')"
  using load_saved_graph[OF assms, of filepath fs]
  by (simp add: list_all_iff comp_def case_prod_unfold)

theorem load_save_drops_weights_witness:
  "is_nx_graph \<lparr>node_dict = [(JStr ''/'', Some (JStr ''home'')), (JStr ''/a'', Some (JStr []))],
                edge_dict = [((JStr ''/'', JStr ''/a''), Some 2)]\<rparr>
   \<and> every_node_has_text
        \<lparr>node_dict = [(JStr ''/'', Some (JStr ''home'')), (JStr ''/a'', Some (JStr []))],
         edge_dict = [((JStr ''/'', JStr ''/a''), Some 2)]\<rparr>
   \<and> (\<exists>G'. json_to_graph
          (graph_to_json
             \<lparr>node_dict = [(JStr ''/'', Some (JStr ''home'')), (JStr ''/a'', Some (JStr []))],
              edge_dict = [((JStr ''/'', JStr ''/a''), Some 2)]\<rparr>
             ''graph.json'' Map.empty)
          ''graph.json'' = Inr G'
        \<and> map fst (edge_dict G') = [(JStr ''/'', JStr ''/a'')]
        \<and> list_all (\<lambda>(e, weight). weight = None) (edge_dict G'))"
proof -
  let ?G = "\<lparr>node_dict = [(JStr ''/'', Some (JStr ''home'')), (JStr ''/a'', Some (JStr []))],
              edge_dict = [((JStr ''/'', JStr ''/a''), Some 2)]\<rparr>"
  have 1: "is_nx_graph ?G"
    by (simp add: is_nx_graph_def no_dangling_def has_edge_def has_node_def)
  have 2: "every_node_has_text ?G"
    by (simp add: every_node_has_text_def)
  from load_save_drops_weights[OF 1 2, of "''graph.json''" Map.empty] 1 2 show ?thesis by simp
qed

end
